theory Spec2Isabelle
  imports Main "HOL-Library.Monad_Syntax"
begin

section \<open>Data model\<close>

text \<open>
  Modelled from the spec: the node, selection and state classes are missing from the
  sources, which hold the operation applier \<^verbatim>\<open>src/operations/apply.js\<close> and the by-key
  transforms. The document is a tree of nodes addressed by stable string keys and by
  positional paths. The three container kinds carry an ordered list of children, the
  Text leaf carries an ordered list of ranges (text fragment, marks). A mark is a value
  of a type and data. The methods that the appliers call on these values are modelled
  from the specification as well, each definition saying what is missing.
\<close>

type_synonym key = string

type_synonym path = "nat list"

datatype mark = Mark string "(string \<times> string) list"

type_synonym range = "string \<times> mark list"

type_synonym props = "(string \<times> string) list"

datatype branch = Document | Block | Inline

datatype node =
    Text key "range list"
  | Branch branch key props "node list"

fun key_of :: "node \<Rightarrow> key" where
  "key_of (Text k rs) = k"
| "key_of (Branch b k pr ns) = k"

text \<open>The \<^verbatim>\<open>kind\<close> field, a string in the source.\<close>

fun kind :: "node \<Rightarrow> string" where
  "kind (Text k rs) = ''text''"
| "kind (Branch Document k pr ns) = ''document''"
| "kind (Branch Block k pr ns) = ''block''"
| "kind (Branch Inline k pr ns) = ''inline''"

text \<open>\<^verbatim>\<open>node.nodes\<close>: the child list of a container, undefined on a Text node.\<close>

fun nodes_of :: "node \<Rightarrow> node list option" where
  "nodes_of (Text k rs) = None"
| "nodes_of (Branch b k pr ns) = Some ns"

subsection \<open>Text content\<close>

definition text_of :: "range list \<Rightarrow> string" where
  "text_of rs = concat (map fst rs)"

definition characters :: "range list \<Rightarrow> (char \<times> mark list) list" where
  "characters rs = concat (map (\<lambda>r. map (\<lambda>c. (c, snd r)) (fst r)) rs)"

text \<open>
  Modelled from the spec: the Text node's range bookkeeping is missing from the
  sources. Ranges partition the text; adjacent characters carrying the same set of
  marks are coalesced into one range.
\<close>

fun ranges_of :: "(char \<times> mark list) list \<Rightarrow> range list" where
  "ranges_of [] = []"
| "ranges_of (c # cs) =
     (case ranges_of cs of
        [] \<Rightarrow> [([fst c], snd c)]
      | r # rs \<Rightarrow>
          if set (snd r) = set (snd c) then (fst c # fst r, snd r) # rs
          else ([fst c], snd c) # r # rs)"

text \<open>
  Modelled from the spec: \<^verbatim>\<open>Text.insertText\<close> is missing from the sources. It
  splices \<^verbatim>\<open>text\<close> in at \<^verbatim>\<open>offset\<close>, tagged with \<^verbatim>\<open>marks\<close>, or with the
  marks already present at that offset when none are given. Only a Text node has the
  method; on a container the call is a TypeError (\<open>None\<close>).
\<close>

definition marksAt :: "(char \<times> mark list) list \<Rightarrow> nat \<Rightarrow> mark list" where
  "marksAt cs i = (if i < length cs then snd (cs ! i) else [])"

fun insertText :: "node \<Rightarrow> nat \<Rightarrow> string \<Rightarrow> mark list option \<Rightarrow> node option" where
  "insertText (Text k rs) offset txt marks =
     (let cs = characters rs;
          ms = (case marks of Some m \<Rightarrow> m | None \<Rightarrow> marksAt cs offset)
      in Some (Text k (ranges_of (take offset cs @ map (\<lambda>c. (c, ms)) txt @ drop offset cs))))"
| "insertText (Branch b k pr ns) offset txt marks = None"

text \<open>
  Modelled from the spec: \<^verbatim>\<open>Text.removeText\<close> is missing from the sources. It
  removes \<^verbatim>\<open>length\<close> characters starting at \<^verbatim>\<open>offset\<close>.
\<close>

fun removeText :: "node \<Rightarrow> nat \<Rightarrow> nat \<Rightarrow> node option" where
  "removeText (Text k rs) offset len =
     (let cs = characters rs
      in Some (Text k (ranges_of (take offset cs @ drop (offset + len) cs))))"
| "removeText (Branch b k pr ns) offset len = None"

subsection \<open>Selection\<close>

text \<open>
  Modelled from the spec: the Selection class is missing from the sources. A selection
  has an anchor and a focus point, each a key and an offset; it is set when both keys
  are present. Start and end are the two points in document order. The value does not
  hold the document: it carries the order in \<open>isBackward\<close>, \<open>Some True\<close> when the
  focus comes first and \<open>None\<close> (\<^verbatim>\<open>null\<close>) when the order is not known. The getters
  test the flag for truthiness, so an unknown order reads as forward.
\<close>

record selection =
  anchorKey :: "key option"
  anchorOffset :: int
  focusKey :: "key option"
  focusOffset :: int
  isBackward :: "bool option"

definition isSet :: "selection \<Rightarrow> bool" where
  "isSet sel = (anchorKey sel \<noteq> None \<and> focusKey sel \<noteq> None)"

definition startKey :: "selection \<Rightarrow> key option" where
  "startKey sel = (if isBackward sel = Some True then focusKey sel else anchorKey sel)"

definition startOffset :: "selection \<Rightarrow> int" where
  "startOffset sel = (if isBackward sel = Some True then focusOffset sel else anchorOffset sel)"

definition endKey :: "selection \<Rightarrow> key option" where
  "endKey sel = (if isBackward sel = Some True then anchorKey sel else focusKey sel)"

definition endOffset :: "selection \<Rightarrow> int" where
  "endOffset sel = (if isBackward sel = Some True then anchorOffset sel else focusOffset sel)"

text \<open>
  Modelled from the spec: the mutators of the Selection class are missing from the
  sources. Each changes the point it names and brings the order up to date as far as
  the two points tell it: when both points are on one node afterwards, the order is
  that of the two offsets; when a point moves to a node that neither point was on, the
  order is not known until the selection is normalized against a document; otherwise
  it is kept. \<^verbatim>\<open>moveStartTo\<close> and \<^verbatim>\<open>moveEndTo\<close> move the point that the order
  names at the time of the call.
\<close>

definition moveAnchor :: "int \<Rightarrow> selection \<Rightarrow> selection" where
  "moveAnchor n sel =
     sel\<lparr>anchorOffset := anchorOffset sel + n,
         isBackward := (if anchorKey sel = focusKey sel
                        then Some (anchorOffset sel + n > focusOffset sel)
                        else isBackward sel)\<rparr>"

definition moveFocus :: "int \<Rightarrow> selection \<Rightarrow> selection" where
  "moveFocus n sel =
     sel\<lparr>focusOffset := focusOffset sel + n,
         isBackward := (if focusKey sel = anchorKey sel
                        then Some (anchorOffset sel > focusOffset sel + n)
                        else isBackward sel)\<rparr>"

definition moveAnchorTo :: "key \<Rightarrow> int \<Rightarrow> selection \<Rightarrow> selection" where
  "moveAnchorTo k off sel =
     sel\<lparr>anchorKey := Some k, anchorOffset := off,
         isBackward := (if Some k = focusKey sel then Some (off > focusOffset sel)
                        else if Some k = anchorKey sel then isBackward sel
                        else None)\<rparr>"

definition moveFocusTo :: "key \<Rightarrow> int \<Rightarrow> selection \<Rightarrow> selection" where
  "moveFocusTo k off sel =
     sel\<lparr>focusKey := Some k, focusOffset := off,
         isBackward := (if Some k = anchorKey sel then Some (anchorOffset sel > off)
                        else if Some k = focusKey sel then isBackward sel
                        else None)\<rparr>"

definition moveStartTo :: "key \<Rightarrow> int \<Rightarrow> selection \<Rightarrow> selection" where
  "moveStartTo k off sel =
     (if isBackward sel = Some True then moveFocusTo k off sel else moveAnchorTo k off sel)"

definition moveEndTo :: "key \<Rightarrow> int \<Rightarrow> selection \<Rightarrow> selection" where
  "moveEndTo k off sel =
     (if isBackward sel = Some True then moveAnchorTo k off sel else moveFocusTo k off sel)"

text \<open>Modelled from the spec: \<^verbatim>\<open>deselect\<close> clears both points.\<close>

definition deselect :: "selection \<Rightarrow> selection" where
  "deselect sel = sel\<lparr>anchorKey := None, anchorOffset := 0, focusKey := None,
     focusOffset := 0, isBackward := Some False\<rparr>"

subsection \<open>State\<close>

text \<open>
  The state value the appliers take and return. \<open>nextKey\<close> is the counter of the key
  generator, a module-level variable of the original that is threaded explicitly here.
\<close>

record state =
  document :: node
  selection :: selection
  data :: props
  nextKey :: nat

section \<open>Document queries\<close>

text \<open>
  Modelled from the spec: the document query surface is missing from the sources.
  \<^verbatim>\<open>assertPath\<close> resolves a path of child indices from the root and is fatal
  (\<open>None\<close>) when an index does not exist.
\<close>

fun assertPath :: "node \<Rightarrow> path \<Rightarrow> node option" where
  "assertPath n [] = Some n"
| "assertPath n (i # p) =
     (case n of
        Text k rs \<Rightarrow> None
      | Branch b k pr ns \<Rightarrow> if i < length ns then assertPath (ns ! i) p else None)"

text \<open>
  Modelled from the spec: \<^verbatim>\<open>getPath\<close> is missing from the sources. It resolves a key
  to the path of the first node in document order that carries the key (keys are unique
  in a well-formed tree).
\<close>

fun getPath :: "node \<Rightarrow> key \<Rightarrow> path option"
  and getPathIn :: "node list \<Rightarrow> nat \<Rightarrow> key \<Rightarrow> path option" where
  "getPath (Text k rs) x = (if k = x then Some [] else None)"
| "getPath (Branch b k pr ns) x = (if k = x then Some [] else getPathIn ns 0 x)"
| "getPathIn [] i x = None"
| "getPathIn (n # ns) i x =
     (case getPath n x of Some p \<Rightarrow> Some (i # p) | None \<Rightarrow> getPathIn ns (Suc i) x)"

text \<open>
  Modelled from the spec: \<^verbatim>\<open>updateDescendant\<close> is missing from the sources. It swaps a
  node into the tree by its key, in place of the descendant that carries the key, and is
  fatal when there is none. \<open>getDescendantPath\<close> is the path of that descendant,
  \<open>replaceAt\<close> the replacement of the node at a path.
\<close>

fun getDescendantPath :: "node \<Rightarrow> key \<Rightarrow> path option" where
  "getDescendantPath (Text k rs) x = None"
| "getDescendantPath (Branch b k pr ns) x = getPathIn ns 0 x"

fun replaceAt :: "node \<Rightarrow> path \<Rightarrow> node \<Rightarrow> node option" where
  "replaceAt n [] n' = Some n'"
| "replaceAt n (i # p) n' =
     (case n of
        Text k rs \<Rightarrow> None
      | Branch b k pr ns \<Rightarrow>
          if i < length ns
          then map_option (\<lambda>c. Branch b k pr (ns[i := c])) (replaceAt (ns ! i) p n')
          else None)"

definition updateDescendant :: "node \<Rightarrow> node \<Rightarrow> node option" where
  "updateDescendant d n =
     (case getDescendantPath d (key_of n) of
        None \<Rightarrow> None
      | Some p \<Rightarrow> replaceAt d p n)"

text \<open>
  Modelled from the spec: \<^verbatim>\<open>getNode\<close>, \<^verbatim>\<open>getParent\<close>, \<^verbatim>\<open>getAncestors\<close> and
  \<^verbatim>\<open>getClosestBlock\<close> are missing from the sources: the node with a key, its parent,
  its ancestors from the root down to the parent, and the nearest ancestor of kind
  block.
\<close>

definition getNode :: "node \<Rightarrow> key \<Rightarrow> node option" where
  "getNode d x = do { p \<leftarrow> getPath d x; assertPath d p }"

definition getParent :: "node \<Rightarrow> key \<Rightarrow> node option" where
  "getParent d x =
     do { p \<leftarrow> getPath d x; if p = [] then None else assertPath d (butlast p) }"

fun those_nodes :: "node option list \<Rightarrow> node list option" where
  "those_nodes [] = Some []"
| "those_nodes (x # xs) =
     (case x of None \<Rightarrow> None | Some n \<Rightarrow> map_option (\<lambda>ns. n # ns) (those_nodes xs))"

definition getAncestors :: "node \<Rightarrow> key \<Rightarrow> node list option" where
  "getAncestors d x =
     do { p \<leftarrow> getPath d x; those_nodes (map (\<lambda>i. assertPath d (take i p)) [0..<length p]) }"


text \<open>
  Modelled from the spec: the enumerations of a subtree are missing from the sources.
  \<open>keys\<close> are the keys and \<open>getTexts\<close> the Text nodes of a subtree, both in document
  order.
\<close>

fun keys :: "node \<Rightarrow> key list" and keysIn :: "node list \<Rightarrow> key list" where
  "keys (Text k rs) = [k]"
| "keys (Branch b k pr ns) = k # keysIn ns"
| "keysIn [] = []"
| "keysIn (n # ns) = keys n @ keysIn ns"

fun getTexts :: "node \<Rightarrow> node list" and getTextsIn :: "node list \<Rightarrow> node list" where
  "getTexts (Text k rs) = [Text k rs]"
| "getTexts (Branch b k pr ns) = getTextsIn ns"
| "getTextsIn [] = []"
| "getTextsIn (n # ns) = getTexts n @ getTextsIn ns"

text \<open>
  Modelled from the spec: \<^verbatim>\<open>node.length\<close> is missing from the sources; it is the
  number of characters of the node's text.
\<close>

definition length_of :: "node \<Rightarrow> nat" where
  "length_of n = length (concat (map (\<lambda>t. case t of Text k rs \<Rightarrow> text_of rs | _ \<Rightarrow> []) (getTexts n)))"

text \<open>
  Modelled from the spec: \<^verbatim>\<open>hasNode\<close> is missing from the sources; the key lies inside
  the subtree.
\<close>

definition hasNode :: "node \<Rightarrow> key option \<Rightarrow> bool" where
  "hasNode n x = (case x of None \<Rightarrow> False | Some k \<Rightarrow> k \<in> set (keys n))"

text \<open>
  Modelled from the spec: \<^verbatim>\<open>getPreviousText\<close> and \<^verbatim>\<open>getNextText\<close> are missing from
  the sources: the previous and the next Text node in document order of the Text node
  with the given key; none when the key names no Text node of the document.
\<close>

definition getPreviousText :: "node \<Rightarrow> key \<Rightarrow> node option" where
  "getPreviousText d x =
     (let ts = getTexts d; before = takeWhile (\<lambda>t. key_of t \<noteq> x) ts
      in if before = [] \<or> length before = length ts then None else Some (last before))"

definition getNextText :: "node \<Rightarrow> key \<Rightarrow> node option" where
  "getNextText d x =
     (case dropWhile (\<lambda>t. key_of t \<noteq> x) (getTexts d) of
        t # t' # ts \<Rightarrow> Some t'
      | _ \<Rightarrow> None)"

text \<open>
  \<^verbatim>\<open>nodes.indexOf(node)\<close>: the first position holding an equal value. The source
  passes the library's -1 for an absent value on to the node methods; the model has
  no result there (\<open>None\<close>), except where the source itself computes with it.
\<close>

fun indexOf :: "'a list \<Rightarrow> 'a \<Rightarrow> nat option" where
  "indexOf [] x = None"
| "indexOf (y # ys) x = (if y = x then Some 0 else map_option Suc (indexOf ys x))"

section \<open>Node methods\<close>

text \<open>
  Modelled from the spec: the structural methods of a container are missing from the
  sources. \<^verbatim>\<open>removeNode\<close> deletes the child at an index, \<^verbatim>\<open>insertNode\<close> inserts
  a node at an index. On a Text node the methods do not exist (\<open>None\<close>).
\<close>

fun removeNode :: "nat \<Rightarrow> node \<Rightarrow> node option" where
  "removeNode i (Text k rs) = None"
| "removeNode i (Branch b k pr ns) = Some (Branch b k pr (take i ns @ drop (Suc i) ns))"

fun insertNode :: "nat \<Rightarrow> node \<Rightarrow> node \<Rightarrow> node option" where
  "insertNode i n (Text k rs) = None"
| "insertNode i n (Branch b k pr ns) = Some (Branch b k pr (take i ns @ n # drop i ns))"

text \<open>
  Modelled from the spec: the key generator is missing from the sources; it issues the
  decimal numerals of a counter, so that no key is issued twice.
\<close>

function generateKey :: "nat \<Rightarrow> key" where
  "generateKey n =
     (if n < 10 then [''0123456789'' ! n]
      else generateKey (n div 10) @ [''0123456789'' ! (n mod 10)])"
  by pat_completeness auto
termination
  by (relation "measure id") auto

declare generateKey.simps [simp del]

text \<open>
  Modelled from the spec: \<^verbatim>\<open>splitNode(index, position)\<close> splits the child at
  \<^verbatim>\<open>index\<close> into two siblings at \<^verbatim>\<open>position\<close>, a character offset for a Text
  node and a child index for a container. The left half keeps the key, the right half
  gets the new key. A position of 0 or of the full length yields an empty sibling.
\<close>

fun splitHalves :: "node \<Rightarrow> nat \<Rightarrow> key \<Rightarrow> node \<times> node" where
  "splitHalves (Text k rs) position new =
     (Text k (ranges_of (take position (characters rs))),
      Text new (ranges_of (drop position (characters rs))))"
| "splitHalves (Branch b k pr ns) position new =
     (Branch b k pr (take position ns), Branch b new pr (drop position ns))"

fun splitNode :: "nat \<Rightarrow> nat \<Rightarrow> key \<Rightarrow> node \<Rightarrow> node option" where
  "splitNode i position new (Text k rs) = None"
| "splitNode i position new (Branch b k pr ns) =
     (if i < length ns
      then (let (one, two) = splitHalves (ns ! i) position new
            in Some (Branch b k pr (take i ns @ one # two # drop (Suc i) ns)))
      else None)"

text \<open>
  Modelled from the spec: \<^verbatim>\<open>joinNode(first, second)\<close> merges the child at index
  \<^verbatim>\<open>second\<close> into the child at index \<^verbatim>\<open>first\<close> and discards it: the characters of
  two Text nodes, the children of two containers. Nodes of different sorts do not join.
\<close>

fun joinHalves :: "node \<Rightarrow> node \<Rightarrow> node option" where
  "joinHalves (Text k rs) (Text k' rs') = Some (Text k (ranges_of (characters rs @ characters rs')))"
| "joinHalves (Branch b k pr ns) (Branch b' k' pr' ns') = Some (Branch b k pr (ns @ ns'))"
| "joinHalves n n' = None"

fun joinNode :: "nat \<Rightarrow> nat \<Rightarrow> node \<Rightarrow> node option" where
  "joinNode i j (Text k rs) = None"
| "joinNode i j (Branch b k pr ns) =
     (if i < length ns \<and> j < length ns \<and> i \<noteq> j
      then do {
        one \<leftarrow> joinHalves (ns ! i) (ns ! j);
        let ns1 = take j ns @ drop (Suc j) ns;
        let i' = (if j < i then i - 1 else i);
        Some (Branch b k pr (ns1[i' := one]))
      }
      else None)"

text \<open>
  The \<^verbatim>\<open>properties\<close> object of a \<^verbatim>\<open>set_node\<close> operation: an optional child list, an
  optional key, and further named values.
\<close>

record properties =
  prop_nodes :: "node list option"
  prop_key :: "key option"
  prop_other :: props

text \<open>
  Modelled from the spec: \<^verbatim>\<open>node.merge(properties)\<close> is a shallow merge, every field
  that the properties carry replaces the node's.
\<close>

definition merge_props :: "props \<Rightarrow> props \<Rightarrow> props" where
  "merge_props old new = new @ filter (\<lambda>e. fst e \<notin> set (map fst new)) old"

fun merge :: "node \<Rightarrow> properties \<Rightarrow> node" where
  "merge (Text k rs) ps = Text (case prop_key ps of Some k' \<Rightarrow> k' | None \<Rightarrow> k) rs"
| "merge (Branch b k pr ns) ps =
     Branch b (case prop_key ps of Some k' \<Rightarrow> k' | None \<Rightarrow> k)
       (merge_props pr (prop_other ps))
       (case prop_nodes ps of Some ns' \<Rightarrow> ns' | None \<Rightarrow> ns)"

section \<open>The operation applier\<close>

text \<open>
  One function per handler of \<^verbatim>\<open>APPLIERS\<close> in \<^verbatim>\<open>src/operations/apply.js\<close>, with the
  fields of the operation record as arguments. \<open>None\<close> is a thrown error: a path that
  does not resolve, or a method called on a value that does not have it.
\<close>

text \<open>\<^verbatim>\<open>insert_node(state, {path, node})\<close>. An empty path has no last index.\<close>

definition insert_node :: "state \<Rightarrow> path \<Rightarrow> node \<Rightarrow> state option" where
  "insert_node s p n =
     (if p = [] then None
      else do {
        parent \<leftarrow> assertPath (document s) (butlast p);
        let isParent = (document s = parent);
        parent1 \<leftarrow> insertNode (last p) n parent;
        doc \<leftarrow> (if isParent then Some parent1 else updateDescendant (document s) parent1);
        Some (s\<lparr>document := doc\<rparr>)
      })"

text \<open>\<^verbatim>\<open>insert_text(state, {path, offset, text, marks})\<close>.\<close>

definition insert_text :: "state \<Rightarrow> path \<Rightarrow> nat \<Rightarrow> string \<Rightarrow> mark list option \<Rightarrow> state option" where
  "insert_text s p offset txt marks =
     do {
       node0 \<leftarrow> assertPath (document s) p;
       node \<leftarrow> insertText node0 offset txt marks;
       doc \<leftarrow> updateDescendant (document s) node;
       let sel = selection s;
       let sel1 = (if anchorKey sel = Some (key_of node) \<and> anchorOffset sel \<ge> int offset
                   then moveAnchor (int (length txt)) sel else sel);
       let sel2 = (if focusKey sel = Some (key_of node) \<and> focusOffset sel \<ge> int offset
                   then moveFocus (int (length txt)) sel1 else sel1);
       Some (s\<lparr>document := doc, selection := sel2\<rparr>)
     }"

text \<open>
  \<^verbatim>\<open>join_node(state, {path})\<close>. The node to join with is the previous sibling; a path
  whose last index is 0 names none.
\<close>

definition join_node :: "state \<Rightarrow> path \<Rightarrow> state option" where
  "join_node s p =
     (if p = [] \<or> last p = 0 then None
      else do {
        let withPath = butlast p @ [last p - 1];
        let sel = selection s;
        one \<leftarrow> assertPath (document s) withPath;
        two \<leftarrow> assertPath (document s) p;
        parent \<leftarrow> getParent (document s) (key_of one);
        ns \<leftarrow> nodes_of parent;
        oneIndex \<leftarrow> indexOf ns one;
        twoIndex \<leftarrow> indexOf ns two;
        parent1 \<leftarrow> joinNode oneIndex twoIndex parent;
        doc \<leftarrow> (if key_of parent1 = key_of (document s) then Some parent1
                else updateDescendant (document s) parent1);
        let sel2 =
          (if kind one = ''text''
           then (let sel1 = (if anchorKey sel = Some (key_of two)
                             then moveAnchorTo (key_of one) (int (length_of one) + anchorOffset sel) sel
                             else sel)
                 in (if focusKey sel = Some (key_of two)
                     then moveFocusTo (key_of one) (int (length_of one) + focusOffset sel) sel1
                     else sel1))
           else sel);
        Some (s\<lparr>document := doc, selection := sel2\<rparr>)
      })"

text \<open>
  \<^verbatim>\<open>move_node(state, {path, newPath})\<close>. \<open>everyEq xs ys\<close> is
  \<^verbatim>\<open>xs.every((x, i) => x === ys[i])\<close>. An empty path has no last index.
\<close>

fun everyEq :: "path \<Rightarrow> path \<Rightarrow> bool" where
  "everyEq [] ys = True"
| "everyEq (x # xs) [] = False"
| "everyEq (x # xs) (y # ys) = (x = y \<and> everyEq xs ys)"

definition move_node :: "state \<Rightarrow> path \<Rightarrow> path \<Rightarrow> state option" where
  "move_node s p newPath =
     (if p = [] \<or> newPath = [] then None
      else do {
        let newIndex = last newPath;
        let newParentPath = butlast newPath;
        let oldParentPath = butlast p;
        let oldIndex = last p;
        node \<leftarrow> assertPath (document s) p;
        parent0 \<leftarrow> getParent (document s) (key_of node);
        parent \<leftarrow> removeNode oldIndex parent0;
        doc1 \<leftarrow> (if kind parent = ''document'' then Some parent
                 else updateDescendant (document s) parent);
        target0 \<leftarrow>
          (if everyEq oldParentPath newParentPath \<and> length oldParentPath = length newParentPath
           then Some parent
           else if everyEq oldParentPath newParentPath
                   \<and> oldIndex < newParentPath ! length oldParentPath
           then assertPath doc1
                  (newParentPath[length oldParentPath := newParentPath ! length oldParentPath - 1])
           else assertPath doc1 newParentPath);
        target \<leftarrow> insertNode newIndex node target0;
        doc2 \<leftarrow> (if kind target = ''document'' then Some target
                 else updateDescendant doc1 target);
        Some (s\<lparr>document := doc2\<rparr>)
      })"

text \<open>
  \<^verbatim>\<open>remove_node(state, {path})\<close>. \<open>relocate\<close> is the block that the source writes
  twice, once for the start with \<^verbatim>\<open>moveStartTo\<close> and once for the end with
  \<^verbatim>\<open>moveEndTo\<close>.
\<close>

definition relocate :: "node \<Rightarrow> key option \<Rightarrow> (key \<Rightarrow> int \<Rightarrow> selection \<Rightarrow> selection) \<Rightarrow> selection \<Rightarrow> selection" where
  "relocate d x moveTo sel =
     (case x of
        None \<Rightarrow> sel
      | Some k \<Rightarrow>
          (case getPreviousText d k of
             Some prev \<Rightarrow> moveTo (key_of prev) (int (length_of prev)) sel
           | None \<Rightarrow>
               (case getNextText d k of
                  Some next \<Rightarrow> moveTo (key_of next) 0 sel
                | None \<Rightarrow> deselect sel)))"

definition remove_node :: "state \<Rightarrow> path \<Rightarrow> state option" where
  "remove_node s p =
     do {
       let sel = selection s;
       node \<leftarrow> assertPath (document s) p;
       let sel2 =
         (if isSet sel
          then (let hasStartNode = hasNode node (startKey sel);
                    hasEndNode = hasNode node (endKey sel);
                    sel1 = (if hasStartNode then relocate (document s) (startKey sel) moveStartTo sel
                            else sel)
                in (if hasEndNode then relocate (document s) (endKey sel) moveEndTo sel1 else sel1))
          else sel);
       parent \<leftarrow> getParent (document s) (key_of node);
       ns \<leftarrow> nodes_of parent;
       index \<leftarrow> indexOf ns node;
       let isParent = (document s = parent);
       parent1 \<leftarrow> removeNode index parent;
       doc \<leftarrow> (if isParent then Some parent1 else updateDescendant (document s) parent1);
       Some (s\<lparr>document := doc, selection := sel2\<rparr>)
     }"

text \<open>\<^verbatim>\<open>remove_text(state, {path, offset, text})\<close>.\<close>

definition remove_text :: "state \<Rightarrow> path \<Rightarrow> nat \<Rightarrow> string \<Rightarrow> state option" where
  "remove_text s p offset txt =
     (let len = length txt;
          rangeOffset = offset + len;
          sel = selection s
      in do {
        node0 \<leftarrow> assertPath (document s) p;
        let sel1 = (if anchorKey sel = Some (key_of node0) \<and> anchorOffset sel \<ge> int rangeOffset
                    then moveAnchor (- int len) sel else sel);
        let sel2 = (if focusKey sel = Some (key_of node0) \<and> focusOffset sel \<ge> int rangeOffset
                    then moveFocus (- int len) sel1 else sel1);
        node \<leftarrow> removeText node0 offset len;
        doc \<leftarrow> updateDescendant (document s) node;
        Some (s\<lparr>document := doc, selection := sel2\<rparr>)
      })"

text \<open>
  \<^verbatim>\<open>set_node(state, {path, properties})\<close>. A property is truthy when it is present
  and, for the key, not the empty string. The comparison of the child lists is by
  value here. The result carries the warnings given besides the new state.
\<close>

datatype warning = NodesNotAllowed | KeyNotAllowed

definition set_node :: "state \<Rightarrow> path \<Rightarrow> properties \<Rightarrow> (warning list \<times> state) option" where
  "set_node s p ps =
     do {
       node \<leftarrow> assertPath (document s) p;
       let dropNodes = (prop_nodes ps \<noteq> None \<and> prop_nodes ps \<noteq> nodes_of node);
       let ps1 = (if dropNodes then ps\<lparr>prop_nodes := None\<rparr> else ps);
       let dropKey = (case prop_key ps1 of
                        None \<Rightarrow> False
                      | Some k \<Rightarrow> k \<noteq> [] \<and> k \<noteq> key_of node);
       let ps2 = (if dropKey then ps1\<lparr>prop_key := None\<rparr> else ps1);
       let node1 = merge node ps2;
       doc \<leftarrow> (if kind node1 = ''document'' then Some node1
               else updateDescendant (document s) node1);
       Some ((if dropNodes then [NodesNotAllowed] else []) @ (if dropKey then [KeyNotAllowed] else []),
             s\<lparr>document := doc\<rparr>)
     }"

text \<open>
  \<^verbatim>\<open>split_node(state, {path, position})\<close>. \<^verbatim>\<open>next.key\<close> is read only when an end
  of the selection moves; it throws when there is no next Text node.
\<close>

definition split_node :: "state \<Rightarrow> path \<Rightarrow> nat \<Rightarrow> state option" where
  "split_node s p position =
     do {
       let sel = selection s;
       node \<leftarrow> assertPath (document s) p;
       parent \<leftarrow> getParent (document s) (key_of node);
       ns \<leftarrow> nodes_of parent;
       index \<leftarrow> indexOf ns node;
       let isParent = (parent = document s);
       parent1 \<leftarrow> splitNode index position (generateKey (nextKey s)) parent;
       doc \<leftarrow> (if isParent then Some parent1 else updateDescendant (document s) parent1);
       let next = getNextText doc (key_of node);
       sel1 \<leftarrow> (if Some (key_of node) = startKey sel \<and> int position \<le> startOffset sel
                then map_option (\<lambda>n. moveStartTo (key_of n) (startOffset sel - int position) sel) next
                else Some sel);
       sel2 \<leftarrow> (if Some (key_of node) = endKey sel \<and> int position \<le> endOffset sel
                then map_option (\<lambda>n. moveEndTo (key_of n) (endOffset sel - int position) sel1) next
                else Some sel1);
       Some (s\<lparr>document := doc, selection := sel2, nextKey := Suc (nextKey s)\<rparr>)
     }"

text \<open>
  The operation records and the dispatcher \<^verbatim>\<open>applyOperation\<close>. The tags are a closed
  type, so the unknown-tag error has no counterpart. The mark operations,
  \<^verbatim>\<open>set_selection\<close> and \<^verbatim>\<open>set_data\<close> are left out: nothing below concerns them.
\<close>

datatype operation =
    Insert_node path node
  | Insert_text path nat string "mark list option"
  | Join_node path
  | Move_node path path
  | Remove_node path
  | Remove_text path nat string
  | Set_node path properties
  | Split_node path nat

fun applyOperation :: "state \<Rightarrow> operation \<Rightarrow> state option" where
  "applyOperation s (Insert_node p n) = insert_node s p n"
| "applyOperation s (Insert_text p offset txt marks) = insert_text s p offset txt marks"
| "applyOperation s (Join_node p) = join_node s p"
| "applyOperation s (Move_node p newPath) = move_node s p newPath"
| "applyOperation s (Remove_node p) = remove_node s p"
| "applyOperation s (Remove_text p offset txt) = remove_text s p offset txt"
| "applyOperation s (Set_node p ps) = map_option snd (set_node s p ps)"
| "applyOperation s (Split_node p position) = split_node s p position"

section \<open>The transform layer\<close>

text \<open>
  Modelled from the spec: the Transform class is missing from the sources. A transform
  holds the current state; \<^verbatim>\<open>transform.applyOperation\<close> runs the applier on it and
  records the operation. The normalizer is an external collaborator: it is a parameter
  \<open>norm\<close> here, any function from a key and a state to a repaired state (or a
  failure). The trace lists the operations applied and, in between, a mark for every
  call of the normalizer, so that the order of the calls can be stated.
\<close>

datatype event = Applied operation | Normalized key

record transform =
  state :: state
  trace :: "event list"

type_synonym normalizer = "key \<Rightarrow> state \<Rightarrow> state option"

definition transform_applyOperation :: "transform \<Rightarrow> operation \<Rightarrow> transform option" where
  "transform_applyOperation tr op =
     do {
       s \<leftarrow> applyOperation (state tr) op;
       Some (tr\<lparr>state := s, trace := trace tr @ [Applied op]\<rparr>)
     }"

definition normalizeNodeByKey :: "normalizer \<Rightarrow> transform \<Rightarrow> key \<Rightarrow> transform option" where
  "normalizeNodeByKey norm tr x =
     do {
       s \<leftarrow> norm x (state tr);
       Some (tr\<lparr>state := s, trace := trace tr @ [Normalized x]\<rparr>)
     }"

text \<open>\<^verbatim>\<open>Transforms.splitNodeByKey(transform, key, position, {normalize})\<close>.\<close>

definition splitNodeByKey :: "normalizer \<Rightarrow> transform \<Rightarrow> key \<Rightarrow> nat \<Rightarrow> bool \<Rightarrow> transform option" where
  "splitNodeByKey norm tr x position normalize' =
     (let doc = document (state tr)
      in do {
        p \<leftarrow> getPath doc x;
        tr1 \<leftarrow> transform_applyOperation tr (Split_node p position);
        if normalize'
        then do { parent \<leftarrow> getParent doc x; normalizeNodeByKey norm tr1 (key_of parent) }
        else Some tr1
      })"





text \<open>
  \<^verbatim>\<open>Transforms.splitDescendantsByKey(transform, key, textKey, textOffset, {normalize})\<close>.
  \<open>splitLoop\<close> is the \<^verbatim>\<open>nodes.forEach\<close> loop with the variable \<^verbatim>\<open>previous\<close> as an
  argument; \<^verbatim>\<open>indexOf(previous) + 1\<close> is 0 when \<^verbatim>\<open>previous\<close> is not a child.
\<close>

fun splitLoop :: "normalizer \<Rightarrow> transform \<Rightarrow> node option \<Rightarrow> nat \<Rightarrow> node list \<Rightarrow> transform option" where
  "splitLoop norm tr previous textOffset [] = Some tr"
| "splitLoop norm tr previous textOffset (node # rest) =
     do {
       index \<leftarrow> (case previous of
                   None \<Rightarrow> Some textOffset
                 | Some prev \<Rightarrow>
                     (case nodes_of node of
                        None \<Rightarrow> None
                      | Some ns \<Rightarrow> Some (case indexOf ns prev of None \<Rightarrow> 0 | Some i \<Rightarrow> i + 1)));
       tr1 \<leftarrow> splitNodeByKey norm tr (key_of node) index False;
       splitLoop norm tr1 (Some node) textOffset rest
     }"

definition splitDescendantsByKey :: "normalizer \<Rightarrow> transform \<Rightarrow> key \<Rightarrow> key \<Rightarrow> nat \<Rightarrow> bool \<Rightarrow> transform option" where
  "splitDescendantsByKey norm tr x textKey textOffset normalize' =
     (if x = textKey then splitNodeByKey norm tr textKey textOffset normalize'
      else (let doc = document (state tr)
            in do {
              txt \<leftarrow> getNode doc textKey;
              ancestors \<leftarrow> getAncestors doc textKey;
              let nodes = txt # rev (dropWhile (\<lambda>a. key_of a \<noteq> x) ancestors);
              tr1 \<leftarrow> splitLoop norm tr None textOffset nodes;
              if normalize'
              then do { parent \<leftarrow> getParent doc x; normalizeNodeByKey norm tr1 (key_of parent) }
              else Some tr1
            }))"



section \<open>Example states\<close>

definition exDoc :: node where
  "exDoc = Branch Document ''d'' [] [Branch Block ''p'' [] [Text ''t'' [(''abcdefgh'', [])]]]"

definition exState :: state where
  "exState = \<lparr>document = exDoc,
     selection = \<lparr>anchorKey = Some ''t'', anchorOffset = 5, focusKey = Some ''t'',
       focusOffset = 2, isBackward = Some True\<rparr>,
     data = [], nextKey = 0\<rparr>"

definition exBlocks :: state where
  "exBlocks = \<lparr>document = Branch Document ''d'' []
       [Branch Block ''p'' [] [Text ''a'' [(''abc'', [])]],
        Branch Block ''q'' [] [Text ''b'' [(''de'', [])]]],
     selection = \<lparr>anchorKey = Some ''q'', anchorOffset = 1, focusKey = Some ''b'',
       focusOffset = 2, isBackward = Some False\<rparr>,
     data = [], nextKey = 0\<rparr>"

definition exTexts :: state where
  "exTexts = \<lparr>document = Branch Document ''d'' []
       [Branch Block ''p'' [] [Text ''a'' [(''abc'', [])], Text ''b'' [(''de'', [])]]],
     selection = \<lparr>anchorKey = Some ''b'', anchorOffset = 1, focusKey = Some ''a'',
       focusOffset = 2, isBackward = Some True\<rparr>,
     data = [], nextKey = 0\<rparr>"

definition exRoot :: state where
  "exRoot = \<lparr>document = Branch Document ''d'' [] [Text ''a'' [(''abc'', [])]],
     selection = \<lparr>anchorKey = None, anchorOffset = 0, focusKey = None,
       focusOffset = 0, isBackward = Some False\<rparr>,
     data = [], nextKey = 0\<rparr>"

definition exABC :: state where
  "exABC = \<lparr>document = Branch Document ''d'' []
       [Branch Block ''p'' []
          [Text ''A'' [(''a'', [])], Text ''B'' [(''b'', [])], Text ''C'' [(''c'', [])]]],
     selection = \<lparr>anchorKey = None, anchorOffset = 0, focusKey = None,
       focusOffset = 0, isBackward = Some False\<rparr>,
     data = [], nextKey = 0\<rparr>"

definition exThree :: node where
  "exThree = Branch Document ''d'' []
     [Branch Block ''p'' [] [Text ''a'' [(''ab'', [])]],
      Branch Block ''q'' [] [Text ''b'' [(''cde'', [])]],
      Branch Block ''r'' [] [Text ''c'' [(''f'', [])]]]"

definition exMiddle :: state where
  "exMiddle = \<lparr>document = exThree,
     selection = \<lparr>anchorKey = Some ''b'', anchorOffset = 1, focusKey = Some ''b'',
       focusOffset = 2, isBackward = Some False\<rparr>,
     data = [], nextKey = 0\<rparr>"

definition exFirst :: state where
  "exFirst = \<lparr>document = exThree,
     selection = \<lparr>anchorKey = Some ''a'', anchorOffset = 0, focusKey = Some ''a'',
       focusOffset = 1, isBackward = Some False\<rparr>,
     data = [], nextKey = 0\<rparr>"

definition exOnly :: state where
  "exOnly = \<lparr>document = Branch Document ''d'' [] [Branch Block ''p'' [] [Text ''a'' [(''ab'', [])]]],
     selection = \<lparr>anchorKey = Some ''a'', anchorOffset = 0, focusKey = Some ''a'',
       focusOffset = 1, isBackward = Some False\<rparr>,
     data = [], nextKey = 0\<rparr>"

definition exInline :: state where
  "exInline = \<lparr>document = Branch Document ''d'' []
       [Branch Block ''p'' []
          [Text ''a'' [(''ab'', [])],
           Branch Inline ''i'' [] [Text ''b'' [(''cd'', [])]],
           Text ''c'' [(''ef'', [])]]],
     selection = \<lparr>anchorKey = Some ''b'', anchorOffset = 1, focusKey = Some ''b'',
       focusOffset = 1, isBackward = Some False\<rparr>,
     data = [], nextKey = 0\<rparr>"



definition exDeep :: transform where
  "exDeep = \<lparr>state = \<lparr>document = Branch Document ''d'' []
         [Branch Block ''b'' [] [Branch Inline ''i'' [] [Text ''t'' [(''hello'', [])]]]],
       selection = \<lparr>anchorKey = None, anchorOffset = 0, focusKey = None,
         focusOffset = 0, isBackward = Some False\<rparr>,
       data = [], nextKey = 0\<rparr>,
     trace = []\<rparr>"

section \<open>Properties\<close>

subsection \<open>Text edits and the selection\<close>

lemma insertText_key: "insertText n off txt ms = Some n' \<Longrightarrow> key_of n' = key_of n"
  by (cases n) (auto simp: Let_def)

lemma removeText_key: "removeText n off len = Some n' \<Longrightarrow> key_of n' = key_of n"
  by (cases n) (auto simp: Let_def)

lemma moveAnchor_simps:
  "anchorKey (moveAnchor n sel) = anchorKey sel"
  "anchorOffset (moveAnchor n sel) = anchorOffset sel + n"
  "focusKey (moveAnchor n sel) = focusKey sel"
  "focusOffset (moveAnchor n sel) = focusOffset sel"
  by (simp_all add: moveAnchor_def)

lemma moveFocus_simps:
  "anchorKey (moveFocus n sel) = anchorKey sel"
  "anchorOffset (moveFocus n sel) = anchorOffset sel"
  "focusKey (moveFocus n sel) = focusKey sel"
  "focusOffset (moveFocus n sel) = focusOffset sel + n"
  by (simp_all add: moveFocus_def)

lemma moveAnchorTo_simps:
  "anchorKey (moveAnchorTo k off sel) = Some k"
  "anchorOffset (moveAnchorTo k off sel) = off"
  "focusKey (moveAnchorTo k off sel) = focusKey sel"
  "focusOffset (moveAnchorTo k off sel) = focusOffset sel"
  by (simp_all add: moveAnchorTo_def)

lemma moveFocusTo_simps:
  "anchorKey (moveFocusTo k off sel) = anchorKey sel"
  "anchorOffset (moveFocusTo k off sel) = anchorOffset sel"
  "focusKey (moveFocusTo k off sel) = Some k"
  "focusOffset (moveFocusTo k off sel) = off"
  by (simp_all add: moveFocusTo_def)

lemma insert_text_selection_eq:
  assumes "insert_text s p offset txt marks = Some s'"
    and "assertPath (document s) p = Some node"
  shows "selection s' =
     (let sel1 = (if anchorKey (selection s) = Some (key_of node) \<and> anchorOffset (selection s) \<ge> int offset
                  then moveAnchor (int (length txt)) (selection s) else selection s)
      in if focusKey (selection s) = Some (key_of node) \<and> focusOffset (selection s) \<ge> int offset
         then moveFocus (int (length txt)) sel1 else sel1)"
proof -
  have "\<exists>node1. insertText node offset txt marks = Some node1 \<and> selection s' =
     (let sel1 = (if anchorKey (selection s) = Some (key_of node1) \<and> anchorOffset (selection s) \<ge> int offset
                  then moveAnchor (int (length txt)) (selection s) else selection s)
      in if focusKey (selection s) = Some (key_of node1) \<and> focusOffset (selection s) \<ge> int offset
         then moveFocus (int (length txt)) sel1 else sel1)"
    using assms unfolding insert_text_def Let_def
    by (auto split: bind_splits)
  then obtain node1 where n1: "insertText node offset txt marks = Some node1"
    and s': "selection s' =
     (let sel1 = (if anchorKey (selection s) = Some (key_of node1) \<and> anchorOffset (selection s) \<ge> int offset
                  then moveAnchor (int (length txt)) (selection s) else selection s)
      in if focusKey (selection s) = Some (key_of node1) \<and> focusOffset (selection s) \<ge> int offset
         then moveFocus (int (length txt)) sel1 else sel1)"
    by blast
  show ?thesis unfolding s' insertText_key [OF n1] ..
qed

text \<open>
  C3. After \<^verbatim>\<open>insert_text\<close> on the Text node at the path, an end point of the
  selection on that node whose offset is at least the insertion offset has moved
  forward by the length of the inserted text; any other end point has the offset it
  had. The keys of both end points are unchanged.
\<close>

theorem insert_text_selection:
  assumes "insert_text s p offset txt marks = Some s'"
    and "assertPath (document s) p = Some node"
  shows "anchorKey (selection s') = anchorKey (selection s)
       \<and> focusKey (selection s') = focusKey (selection s)
       \<and> anchorOffset (selection s') =
           (if anchorKey (selection s) = Some (key_of node) \<and> int offset \<le> anchorOffset (selection s)
            then anchorOffset (selection s) + int (length txt) else anchorOffset (selection s))
       \<and> focusOffset (selection s') =
           (if focusKey (selection s) = Some (key_of node) \<and> int offset \<le> focusOffset (selection s)
            then focusOffset (selection s) + int (length txt) else focusOffset (selection s))"
  unfolding insert_text_selection_eq [OF assms]
  by (simp add: Let_def moveAnchor_simps moveFocus_simps)

text \<open>
  The anchor at offset 5 of the node: two characters inserted at offset 3 take it to 7
  (the focus at offset 2 stays), two characters inserted at offset 6 leave it at 5.
\<close>

theorem insert_text_selection_witness:
  "(\<exists>s'. insert_text exState [0, 0] 3 ''xy'' None = Some s'
         \<and> anchorKey (selection s') = Some ''t'' \<and> anchorOffset (selection s') = 7
         \<and> focusOffset (selection s') = 2)
   \<and> (\<exists>s'. insert_text exState [0, 0] 6 ''xy'' None = Some s'
         \<and> anchorKey (selection s') = Some ''t'' \<and> anchorOffset (selection s') = 5)"
proof -
  have n: "assertPath (document exState) [0, 0] = Some (Text ''t'' [(''abcdefgh'', [])])"
    by (simp add: exState_def exDoc_def)
  have a: "insert_text exState [0, 0] 3 ''xy'' None \<noteq> None"
    by code_simp
  have b: "insert_text exState [0, 0] 6 ''xy'' None \<noteq> None"
    by code_simp
  from a obtain s1 where s1: "insert_text exState [0, 0] 3 ''xy'' None = Some s1" by blast
  from b obtain s2 where s2: "insert_text exState [0, 0] 6 ''xy'' None = Some s2" by blast
  show ?thesis
    using insert_text_selection [OF s1 n] insert_text_selection [OF s2 n] s1 s2
    by (simp add: exState_def)
qed

lemma remove_text_selection_eq:
  assumes "remove_text s p offset txt = Some s'"
    and "assertPath (document s) p = Some node"
  shows "selection s' =
     (let sel1 = (if anchorKey (selection s) = Some (key_of node)
                     \<and> anchorOffset (selection s) \<ge> int (offset + length txt)
                  then moveAnchor (- int (length txt)) (selection s) else selection s)
      in if focusKey (selection s) = Some (key_of node)
            \<and> focusOffset (selection s) \<ge> int (offset + length txt)
         then moveFocus (- int (length txt)) sel1 else sel1)"
  using assms unfolding remove_text_def Let_def
  by (auto split: bind_splits)

text \<open>
  C4. After \<^verbatim>\<open>remove_text\<close> on the node at the path, an end point of the selection
  on that node whose offset is at least \<open>offset + length text\<close> has moved back by the
  length of the removed text; any other end point, one inside the removed span among
  them, has the offset it had.
\<close>

theorem remove_text_selection:
  assumes "remove_text s p offset txt = Some s'"
    and "assertPath (document s) p = Some node"
  shows "anchorKey (selection s') = anchorKey (selection s)
       \<and> focusKey (selection s') = focusKey (selection s)
       \<and> anchorOffset (selection s') =
           (if anchorKey (selection s) = Some (key_of node)
               \<and> int (offset + length txt) \<le> anchorOffset (selection s)
            then anchorOffset (selection s) - int (length txt) else anchorOffset (selection s))
       \<and> focusOffset (selection s') =
           (if focusKey (selection s) = Some (key_of node)
               \<and> int (offset + length txt) \<le> focusOffset (selection s)
            then focusOffset (selection s) - int (length txt) else focusOffset (selection s))"
  unfolding remove_text_selection_eq [OF assms]
  by (simp add: Let_def moveAnchor_simps moveFocus_simps)

text \<open>
  Characters 1 to 3 removed: the anchor at offset 5 moves to 2, the focus at offset 2,
  inside the span, stays.
\<close>

theorem remove_text_selection_witness:
  "\<exists>s'. remove_text exState [0, 0] 1 ''bcd'' = Some s'
       \<and> anchorKey (selection s') = Some ''t'' \<and> anchorOffset (selection s') = 2
       \<and> focusKey (selection s') = Some ''t'' \<and> focusOffset (selection s') = 2"
proof -
  have n: "assertPath (document exState) [0, 0] = Some (Text ''t'' [(''abcdefgh'', [])])"
    by (simp add: exState_def exDoc_def)
  have a: "remove_text exState [0, 0] 1 ''bcd'' \<noteq> None"
    by code_simp
  from a obtain s1 where s1: "remove_text exState [0, 0] 1 ''bcd'' = Some s1" by blast
  show ?thesis
    using remove_text_selection [OF s1 n] s1
    by (simp add: exState_def)
qed

subsection \<open>Joining nodes\<close>

text \<open>
  C10. The \<^verbatim>\<open>join_node\<close> applier rebases the selection only when the retained
  previous sibling is a Text node: when it is a container, the selection of the result
  is the selection of the input state, whatever keys its end points carry.
\<close>

theorem join_node_containers_selection:
  assumes "join_node s p = Some s'"
    and "assertPath (document s) (butlast p @ [last p - 1]) = Some one"
    and "kind one \<noteq> ''text''"
  shows "selection s' = selection s"
  using assms
  by (auto simp: join_node_def Let_def split: bind_splits if_splits)

text \<open>
  Two blocks joined while the anchor carries the key of the removed block: the
  selection is returned as it was.
\<close>

theorem join_node_containers_selection_witness:
  "\<exists>s'. join_node exBlocks [1] = Some s'
       \<and> assertPath (document exBlocks) [1] = Some (Branch Block ''q'' [] [Text ''b'' [(''de'', [])]])
       \<and> anchorKey (selection exBlocks) = Some ''q''
       \<and> selection s' = selection exBlocks"
proof -
  have one: "assertPath (document exBlocks) (butlast [1] @ [last [1] - 1])
               = Some (Branch Block ''p'' [] [Text ''a'' [(''abc'', [])]])"
    by (simp add: exBlocks_def)
  have k: "kind (Branch Block ''p'' [] [Text ''a'' [(''abc'', [])]]) \<noteq> ''text''"
    by simp
  have a: "join_node exBlocks [1] \<noteq> None"
    by code_simp
  then obtain s1 where s1: "join_node exBlocks [1] = Some s1" by blast
  show ?thesis
    using join_node_containers_selection [OF s1 one k] s1
    by (simp add: exBlocks_def)
qed

text \<open>
  C6 as stated covers containers, with the child count of the previous node as the
  base. It fails there: the anchor on the removed block \<open>q\<close> at offset 1 is not moved
  to the retained block \<open>p\<close> at offset 1 + 1, it stays where it was.
\<close>

theorem join_node_containers_counterexample:
  "map_option (\<lambda>s'. (anchorKey (selection s'), anchorOffset (selection s'))) (join_node exBlocks [1])
     = Some (Some ''q'', 1)
   \<and> assertPath (document exBlocks) [0] = Some (Branch Block ''p'' [] [Text ''a'' [(''abc'', [])]])
   \<and> assertPath (document exBlocks) [1] = Some (Branch Block ''q'' [] [Text ''b'' [(''de'', [])]])
   \<and> anchorKey (selection exBlocks) = Some ''q''
   \<and> anchorOffset (selection exBlocks) = 1"
  by code_simp

lemma join_node_selection_eq:
  assumes "join_node s p = Some s'"
    and "assertPath (document s) (butlast p @ [last p - 1]) = Some one"
    and "assertPath (document s) p = Some two"
  shows "selection s' =
     (if kind one = ''text''
      then (let sel1 = (if anchorKey (selection s) = Some (key_of two)
                        then moveAnchorTo (key_of one) (int (length_of one) + anchorOffset (selection s)) (selection s)
                        else selection s)
            in (if focusKey (selection s) = Some (key_of two)
                then moveFocusTo (key_of one) (int (length_of one) + focusOffset (selection s)) sel1
                else sel1))
      else selection s)"
  using assms unfolding join_node_def Let_def
  by (auto split: bind_splits if_splits)

text \<open>
  C6, amended. When the retained previous sibling is a Text node, every end point of
  the selection whose key is the removed node's key is relocated to the retained node,
  at the retained node's character length plus its former offset; every other end
  point is unchanged.
\<close>

theorem join_node_text_selection:
  assumes "join_node s p = Some s'"
    and "assertPath (document s) (butlast p @ [last p - 1]) = Some one"
    and "assertPath (document s) p = Some two"
    and "kind one = ''text''"
  shows "(if anchorKey (selection s) = Some (key_of two)
          then anchorKey (selection s') = Some (key_of one)
             \<and> anchorOffset (selection s') = int (length_of one) + anchorOffset (selection s)
          else anchorKey (selection s') = anchorKey (selection s)
             \<and> anchorOffset (selection s') = anchorOffset (selection s))
       \<and> (if focusKey (selection s) = Some (key_of two)
          then focusKey (selection s') = Some (key_of one)
             \<and> focusOffset (selection s') = int (length_of one) + focusOffset (selection s)
          else focusKey (selection s') = focusKey (selection s)
             \<and> focusOffset (selection s') = focusOffset (selection s))"
  unfolding join_node_selection_eq [OF assms(1,2,3)]
  by (simp add: assms(4) Let_def moveAnchorTo_simps moveFocusTo_simps)

text \<open>
  The Text node \<open>b\<close> joined into \<open>a\<close> of length 3: the anchor at offset 1 of \<open>b\<close>
  moves to offset 4 of \<open>a\<close>, the focus on \<open>a\<close> stays.
\<close>

theorem join_node_text_selection_witness:
  "\<exists>s'. join_node exTexts [0, 1] = Some s'
       \<and> anchorKey (selection exTexts) = Some ''b'' \<and> anchorOffset (selection exTexts) = 1
       \<and> anchorKey (selection s') = Some ''a'' \<and> anchorOffset (selection s') = 4
       \<and> focusKey (selection s') = Some ''a'' \<and> focusOffset (selection s') = 2"
proof -
  have one: "assertPath (document exTexts) (butlast [0, 1] @ [last [0, 1] - 1])
               = Some (Text ''a'' [(''abc'', [])])"
    by (simp add: exTexts_def)
  have two: "assertPath (document exTexts) [0, 1] = Some (Text ''b'' [(''de'', [])])"
    by (simp add: exTexts_def)
  have k: "kind (Text ''a'' [(''abc'', [])]) = ''text''"
    by simp
  have a: "join_node exTexts [0, 1] \<noteq> None"
    by code_simp
  then obtain s1 where s1: "join_node exTexts [0, 1] = Some s1" by blast
  show ?thesis
    using join_node_text_selection [OF s1 one two k] s1
    by (simp add: exTexts_def length_of_def text_of_def)
qed

subsection \<open>Setting node properties\<close>

text \<open>
  C9. \<^verbatim>\<open>set_node\<close> means to keep the key of the node: a key among the properties
  that differs from the node's is dropped with a warning. The test reads the key for
  its truth value, so the empty string passes it: on the document with key \<open>d\<close> the
  operation with the properties \<open>{key: ''}\<close> gives no warning and overwrites the key.
\<close>

theorem set_node_empty_key:
  "map_option (\<lambda>r. (fst r, key_of (document (snd r))))
     (set_node exRoot [] \<lparr>prop_nodes = None, prop_key = Some '''', prop_other = []\<rparr>)
   = Some ([], '''')
   \<and> key_of (document exRoot) = ''d''"
  by code_simp

subsection \<open>Moving a node\<close>

text \<open>
  C1 as stated fails: the parent \<open>p\<close> has the children A, B, C; moving A from index 0
  to index 2 of the same parent yields B, C, A, and not B, A, C.
\<close>

theorem move_node_same_parent_counterexample:
  "assertPath (document exABC) [0] = Some (Branch Block ''p'' []
      [Text ''A'' [(''a'', [])], Text ''B'' [(''b'', [])], Text ''C'' [(''c'', [])]])
   \<and> map_option (\<lambda>s'. assertPath (document s') [0]) (move_node exABC [0, 0] [0, 2])
       = Some (Some (Branch Block ''p'' []
           [Text ''B'' [(''b'', [])], Text ''C'' [(''c'', [])], Text ''A'' [(''a'', [])]]))"
  by code_simp

subsection \<open>Paths, keys and replacement\<close>

lemma keysIn_concat: "keysIn ns = concat (map keys ns)"
  by (induction ns) auto

lemma getTextsIn_concat: "getTextsIn ns = concat (map getTexts ns)"
  by (induction ns) auto

lemma key_of_in_keys: "key_of n \<in> set (keys n)"
  by (cases n) auto

lemma keys_nth_subset: "i < length ns \<Longrightarrow> set (keys (ns ! i)) \<subseteq> set (keysIn ns)"
  by (induction ns arbitrary: i) (auto simp: nth_Cons split: nat.splits)

lemma getPath_Nil_iff: "getPath n x = Some [] \<longleftrightarrow> key_of n = x"
proof (cases n)
  case (Text k rs)
  then show ?thesis by auto
next
  case (Branch b k pr ns)
  have "getPathIn ns i x \<noteq> Some []" for i
    by (induction ns arbitrary: i) (auto split: option.splits)
  with Branch show ?thesis by auto
qed

lemma getPathIn_Some_iff:
  "getPathIn ns i x = Some q \<longleftrightarrow>
     (\<exists>j p. q = (i + j) # p \<and> j < length ns \<and> getPath (ns ! j) x = Some p
            \<and> (\<forall>j' < j. getPath (ns ! j') x = None))"
proof (induction ns arbitrary: i)
  case Nil
  then show ?case by simp
next
  case (Cons n ns)
  show ?case
  proof (cases "getPath n x")
    case None
    have "(\<exists>j p. q = (i + j) # p \<and> j < length (n # ns) \<and> getPath ((n # ns) ! j) x = Some p
            \<and> (\<forall>j' < j. getPath ((n # ns) ! j') x = None))
        \<longleftrightarrow> (\<exists>j p. q = (Suc i + j) # p \<and> j < length ns \<and> getPath (ns ! j) x = Some p
            \<and> (\<forall>j' < j. getPath (ns ! j') x = None))" (is "?L \<longleftrightarrow> ?R")
    proof
      assume ?L
      then obtain j p where j: "q = (i + j) # p" "j < length (n # ns)"
        "getPath ((n # ns) ! j) x = Some p" "\<forall>j' < j. getPath ((n # ns) ! j') x = None"
        by blast
      with None obtain j0 where j0: "j = Suc j0" by (cases j) auto
      have "\<forall>j' < j0. getPath (ns ! j') x = None"
      proof (intro allI impI)
        fix j' assume "j' < j0"
        then have "Suc j' < j" using j0 by simp
        with j(4) have "getPath ((n # ns) ! Suc j') x = None" by blast
        then show "getPath (ns ! j') x = None" by simp
      qed
      with j j0 show ?R by auto
    next
      assume ?R
      then obtain j p where j: "q = (Suc i + j) # p" "j < length ns"
        "getPath (ns ! j) x = Some p" "\<forall>j' < j. getPath (ns ! j') x = None"
        by blast
      have "\<forall>j' < Suc j. getPath ((n # ns) ! j') x = None"
      proof (intro allI impI)
        fix j' assume "j' < Suc j"
        then show "getPath ((n # ns) ! j') x = None"
          using None j(4) by (cases j') auto
      qed
      with j show ?L
        by (intro exI [of _ "Suc j"] exI [of _ p]) auto
    qed
    with None Cons.IH [of "Suc i"] show ?thesis by simp
  next
    case (Some p0)
    have "(\<exists>j p. q = (i + j) # p \<and> j < length (n # ns) \<and> getPath ((n # ns) ! j) x = Some p
            \<and> (\<forall>j' < j. getPath ((n # ns) ! j') x = None)) \<longleftrightarrow> q = i # p0" (is "?L \<longleftrightarrow> ?R")
    proof
      assume ?L
      then obtain j p where j: "q = (i + j) # p" "j < length (n # ns)"
        "getPath ((n # ns) ! j) x = Some p" "\<forall>j' < j. getPath ((n # ns) ! j') x = None"
        by blast
      have "j = 0"
      proof (rule ccontr)
        assume "j \<noteq> 0"
        then have "0 < j" by simp
        with j(4) have "getPath ((n # ns) ! 0) x = None" by blast
        with Some show False by simp
      qed
      with j Some show ?R by simp
    next
      assume ?R
      with Some show ?L by (intro exI [of _ 0] exI [of _ p0]) auto
    qed
    with Some show ?thesis by auto
  qed
qed

lemma getPath_None_iff: "getPath n x = None \<longleftrightarrow> x \<notin> set (keys n)"
  and getPathIn_None_iff: "getPathIn ns i x = None \<longleftrightarrow> x \<notin> set (keysIn ns)"
  by (induction n x and ns i x rule: getPath_getPathIn.induct) (auto split: option.splits)

lemma getPath_Branch_Some:
  "getPath (Branch b k pr ns) x = Some (i # p) \<longleftrightarrow>
     k \<noteq> x \<and> i < length ns \<and> getPath (ns ! i) x = Some p
     \<and> (\<forall>j < i. getPath (ns ! j) x = None)"
  by (auto simp: getPathIn_Some_iff)

lemma assertPath_Cons:
  "assertPath n (i # p) = Some m \<longleftrightarrow>
     (\<exists>b k pr ns. n = Branch b k pr ns \<and> i < length ns \<and> assertPath (ns ! i) p = Some m)"
  by (cases n) auto

lemma replaceAt_Cons:
  "replaceAt n (i # p) n' = Some m \<longleftrightarrow>
     (\<exists>b k pr ns c. n = Branch b k pr ns \<and> i < length ns \<and> replaceAt (ns ! i) p n' = Some c
        \<and> m = Branch b k pr (ns[i := c]))"
  by (cases n) auto

lemma getPath_assertPath:
  "getPath d x = Some p \<Longrightarrow> \<exists>n. assertPath d p = Some n \<and> key_of n = x"
proof (induction p arbitrary: d)
  case Nil
  then show ?case by (simp add: getPath_Nil_iff)
next
  case (Cons i p)
  then obtain b k pr ns where d: "d = Branch b k pr ns"
    by (cases d) (auto split: if_splits)
  with Cons.prems have "i < length ns" "getPath (ns ! i) x = Some p"
    by (auto simp: getPathIn_Some_iff split: if_splits)
  with Cons.IH [of "ns ! i"] d show ?case by simp
qed

lemma assertPath_keys_subset:
  "assertPath d p = Some n \<Longrightarrow> set (keys n) \<subseteq> set (keys d)"
proof (induction p arbitrary: d)
  case Nil
  then show ?case by simp
next
  case (Cons i p)
  then obtain b k pr ns where d: "d = Branch b k pr ns" "i < length ns"
    "assertPath (ns ! i) p = Some n"
    unfolding assertPath_Cons by blast
  from Cons.IH [OF d(3)] have "set (keys n) \<subseteq> set (keys (ns ! i))" .
  moreover have "set (keys (ns ! i)) \<subseteq> set (keysIn ns)"
    using d(2) by (rule keys_nth_subset)
  ultimately show ?case using d(1) by auto
qed

lemma distinct_keysIn_nth:
  assumes "distinct (keysIn ns)" "i < length ns"
  shows "distinct (keys (ns ! i))"
  using assms by (simp add: keysIn_concat distinct_concat_iff)

lemma distinct_keysIn_disjoint:
  "distinct (keysIn ns) \<Longrightarrow> i < length ns \<Longrightarrow> j < length ns \<Longrightarrow> i \<noteq> j
     \<Longrightarrow> set (keys (ns ! i)) \<inter> set (keys (ns ! j)) = {}"
proof (induction ns arbitrary: i j)
  case Nil
  then show ?case by simp
next
  case (Cons a ns)
  from Cons.prems(1) have dis: "set (keys a) \<inter> set (keysIn ns) = {}" and d: "distinct (keysIn ns)"
    by simp_all
  show ?case
  proof (cases i)
    case 0
    with Cons.prems obtain j' where j': "j = Suc j'" "j' < length ns" by (cases j) auto
    with dis keys_nth_subset [OF j'(2)] 0 show ?thesis by auto
  next
    case (Suc i')
    note i' = this
    show ?thesis
    proof (cases j)
      case 0
      from i' Cons.prems(2) have "i' < length ns" by simp
      with dis keys_nth_subset [of i' ns] 0 i' show ?thesis by auto
    next
      case (Suc j')
      with i' Cons.prems Cons.IH [OF d, of i' j'] show ?thesis by simp
    qed
  qed
qed

lemma assertPath_getPath:
  "distinct (keys d) \<Longrightarrow> assertPath d p = Some n \<Longrightarrow> getPath d (key_of n) = Some p"
proof (induction p arbitrary: d)
  case Nil
  then show ?case by (simp add: getPath_Nil_iff)
next
  case (Cons i p)
  then obtain b k pr ns where d: "d = Branch b k pr ns" "i < length ns"
    "assertPath (ns ! i) p = Some n"
    unfolding assertPath_Cons by blast
  from Cons.prems(1) d(1) have dist: "k \<notin> set (keysIn ns)" "distinct (keysIn ns)" by simp_all
  have in_i: "key_of n \<in> set (keys (ns ! i))"
    using assertPath_keys_subset [OF d(3)] key_of_in_keys by blast
  then have "key_of n \<in> set (keysIn ns)"
    using keys_nth_subset [OF d(2)] by blast
  with dist(1) have ne: "k \<noteq> key_of n" by auto
  have ih: "getPath (ns ! i) (key_of n) = Some p"
    using Cons.IH [OF distinct_keysIn_nth [OF dist(2) d(2)] d(3)] .
  have "\<forall>j < i. getPath (ns ! j) (key_of n) = None"
  proof (intro allI impI)
    fix j assume j: "j < i"
    then have "set (keys (ns ! i)) \<inter> set (keys (ns ! j)) = {}"
      using distinct_keysIn_disjoint [OF dist(2) d(2), of j] d(2) by simp
    with in_i show "getPath (ns ! j) (key_of n) = None"
      by (auto simp: getPath_None_iff)
  qed
  with ih ne d(2) show ?case unfolding d(1) getPath_Branch_Some by blast
qed

lemma replaceAt_assertPath:
  "assertPath d p = Some n \<Longrightarrow> \<exists>d'. replaceAt d p n' = Some d' \<and> assertPath d' p = Some n'"
proof (induction p arbitrary: d)
  case Nil
  then show ?case by simp
next
  case (Cons i p)
  then obtain b k pr ns where d: "d = Branch b k pr ns" "i < length ns"
    "assertPath (ns ! i) p = Some n"
    unfolding assertPath_Cons by blast
  from Cons.IH [OF d(3)] obtain c where "replaceAt (ns ! i) p n' = Some c" "assertPath c p = Some n'"
    by blast
  with d show ?case by simp
qed

lemma getPath_replaceAt:
  assumes "getPath d x = Some p" "replaceAt d (p @ r) n' = Some d'" "r = [] \<longrightarrow> key_of n' = x"
  shows "getPath d' x = Some p"
  using assms
proof (induction p arbitrary: d d')
  case Nil
  then have k: "key_of d = x" by (simp add: getPath_Nil_iff)
  show ?case
  proof (cases r)
    case Nil
    with Nil.prems show ?thesis by (simp add: getPath_Nil_iff)
  next
    case (Cons i r')
    with Nil.prems(2) k have "key_of d' = x"
      by (cases d) (auto split: if_splits)
    then show ?thesis by (simp add: getPath_Nil_iff)
  qed
next
  case (Cons i p)
  from Cons.prems(2) obtain b k pr ns c where d: "d = Branch b k pr ns" "i < length ns"
    "replaceAt (ns ! i) (p @ r) n' = Some c" "d' = Branch b k pr (ns[i := c])"
    unfolding append_Cons replaceAt_Cons by blast
  from Cons.prems(1) d(1) have "getPath (Branch b k pr ns) x = Some (i # p)"
    by simp
  then have g: "k \<noteq> x" "getPath (ns ! i) x = Some p"
    "\<forall>j < i. getPath (ns ! j) x = None"
    unfolding getPath_Branch_Some by blast+
  have "getPath c x = Some p"
    using Cons.IH [OF g(2) d(3) Cons.prems(3)] .
  with g d(2) show ?case unfolding d(4) getPath_Branch_Some
    by (simp add: nth_list_update)
qed

lemma getDescendantPath_eq:
  "getPath d x = Some p \<Longrightarrow> p \<noteq> [] \<Longrightarrow> getDescendantPath d x = Some p"
  by (cases d) (auto split: if_splits)

lemma replaceAt_replaceAt:
  "replaceAt d p a = Some d1 \<Longrightarrow> replaceAt d1 p b = replaceAt d p b"
proof (induction p arbitrary: d d1)
  case Nil
  then show ?case by simp
next
  case (Cons i p)
  then obtain bk k pr ns c where d: "d = Branch bk k pr ns" "i < length ns"
    "replaceAt (ns ! i) p a = Some c" "d1 = Branch bk k pr (ns[i := c])"
    unfolding replaceAt_Cons by blast
  from Cons.IH [OF d(3)] d show ?case by simp
qed

lemma everyEq_refl: "everyEq xs xs"
  by (induction xs) auto

lemma assertPath_append:
  "assertPath d (p @ q) = (case assertPath d p of None \<Rightarrow> None | Some n \<Rightarrow> assertPath n q)"
  by (induction p arbitrary: d) (auto split: node.splits)

lemma getParent_child:
  assumes "distinct (keys d)" "assertPath d pp = Some (Branch b k pr ns)" "i < length ns"
  shows "getParent d (key_of (ns ! i)) = Some (Branch b k pr ns)"
proof -
  have "assertPath d (pp @ [i]) = Some (ns ! i)"
    using assms(2,3) by (simp add: assertPath_append)
  from assertPath_getPath [OF assms(1) this]
  show ?thesis using assms(2) by (simp add: getParent_def)
qed

lemma updateDescendant_at:
  assumes "distinct (keys d)" "assertPath d pp = Some n" "pp \<noteq> []" "key_of n' = key_of n"
  shows "updateDescendant d n' = replaceAt d pp n'"
proof -
  have "getPath d (key_of n) = Some pp"
    using assertPath_getPath [OF assms(1,2)] .
  then have "getDescendantPath d (key_of n') = Some pp"
    using assms(3,4) by (simp add: getDescendantPath_eq)
  then show ?thesis by (simp add: updateDescendant_def)
qed

lemma updateDescendant_again:
  assumes "distinct (keys d)" "assertPath d pp = Some n" "pp \<noteq> []" "key_of n' = key_of n"
    "key_of n'' = key_of n" "replaceAt d pp n' = Some d1"
  shows "updateDescendant d1 n'' = replaceAt d pp n''"
proof -
  have "getPath d (key_of n) = Some pp"
    using assertPath_getPath [OF assms(1,2)] .
  then have "getPath d1 (key_of n) = Some pp"
    using getPath_replaceAt [of d "key_of n" pp "[]" n' d1] assms(4,6) by simp
  then have "getDescendantPath d1 (key_of n'') = Some pp"
    using assms(3,5) by (simp add: getDescendantPath_eq)
  then show ?thesis
    using replaceAt_replaceAt [OF assms(6)] by (simp add: updateDescendant_def)
qed

lemma move_node_within_parent:
  assumes dist: "distinct (keys (document s))"
    and par: "assertPath (document s) pp = Some (Branch b k pr ns)"
    and i: "i < length ns"
    and root: "(kind (Branch b k pr ns) = ''document'') = (pp = [])"
  shows "\<exists>d'. move_node s (pp @ [i]) (pp @ [j]) = Some (s\<lparr>document := d'\<rparr>)
            \<and> replaceAt (document s) pp
                 (Branch b k pr (take j (take i ns @ drop (Suc i) ns) @ ns ! i
                    # drop j (take i ns @ drop (Suc i) ns))) = Some d'"
proof -
  define ns1 where "ns1 = take i ns @ drop (Suc i) ns"
  define parent1 where "parent1 = Branch b k pr ns1"
  define target where "target = Branch b k pr (take j ns1 @ ns ! i # drop j ns1)"
  have node: "assertPath (document s) (pp @ [i]) = Some (ns ! i)"
    using par i by (simp add: assertPath_append)
  have parent: "getParent (document s) (key_of (ns ! i)) = Some (Branch b k pr ns)"
    using getParent_child [OF dist par i] .
  have rem: "removeNode i (Branch b k pr ns) = Some parent1"
    by (simp add: parent1_def ns1_def)
  have ins: "insertNode j (ns ! i) parent1 = Some target"
    by (simp add: parent1_def target_def)
  have kinds: "kind parent1 = kind (Branch b k pr ns)" "kind target = kind (Branch b k pr ns)"
    by (cases b; simp add: parent1_def target_def)+
  obtain d' where d': "replaceAt (document s) pp target = Some d'"
    using replaceAt_assertPath [OF par] by blast
  show ?thesis
  proof (cases "pp = []")
    case True
    with d' have "d' = target" by simp
    with True root kinds node parent rem ins d' show ?thesis
      by (simp add: move_node_def everyEq_refl target_def ns1_def)
  next
    case False
    obtain d1 where d1: "replaceAt (document s) pp parent1 = Some d1"
      using replaceAt_assertPath [OF par] by blast
    have u1: "updateDescendant (document s) parent1 = Some d1"
      using updateDescendant_at [OF dist par False, of parent1] d1 by (simp add: parent1_def)
    have u2: "updateDescendant d1 target = Some d'"
      using updateDescendant_again [OF dist par False _ _ d1, of target] d'
      by (simp add: parent1_def target_def)
    from False root kinds node parent rem ins u1 u2 d' show ?thesis
      by (simp add: move_node_def everyEq_refl target_def ns1_def)
  qed
qed

text \<open>
  C1, amended. In a document with unique keys, for a parent whose children are A, B, C,
  the \<^verbatim>\<open>move_node\<close> operation that moves A from index 0 to index 2 of the same
  parent succeeds and produces the children B, C, A: the new index is read against
  the children that remain after the removal, because the applier inserts into the
  parent it has just updated. Nothing else in the document changes. (Only the root is
  of kind document.)
\<close>

theorem move_node_same_parent:
  assumes "distinct (keys (document s))"
    and "assertPath (document s) pp = Some (Branch b k pr [A, B, C])"
    and "(kind (Branch b k pr [A, B, C]) = ''document'') = (pp = [])"
  shows "\<exists>d'. move_node s (pp @ [0]) (pp @ [2]) = Some (s\<lparr>document := d'\<rparr>)
            \<and> replaceAt (document s) pp (Branch b k pr [B, C, A]) = Some d'
            \<and> assertPath d' pp = Some (Branch b k pr [B, C, A])"
proof -
  from move_node_within_parent [OF assms(1,2) _ assms(3), of 0 2]
  obtain d' where d': "move_node s (pp @ [0]) (pp @ [2]) = Some (s\<lparr>document := d'\<rparr>)"
    "replaceAt (document s) pp (Branch b k pr [B, C, A]) = Some d'"
    by auto
  from replaceAt_assertPath [OF assms(2), of "Branch b k pr [B, C, A]"] d'(2)
  have "assertPath d' pp = Some (Branch b k pr [B, C, A])" by simp
  with d' show ?thesis by blast
qed

theorem move_node_same_parent_witness:
  "\<exists>d'. move_node exABC ([0] @ [0]) ([0] @ [2]) = Some (exABC\<lparr>document := d'\<rparr>)
      \<and> assertPath d' [0] = Some (Branch Block ''p'' []
            [Text ''B'' [(''b'', [])], Text ''C'' [(''c'', [])], Text ''A'' [(''a'', [])]])"
proof -
  have d: "distinct (keys (document exABC))"
    by (simp add: exABC_def)
  have p: "assertPath (document exABC) [0] = Some (Branch Block ''p'' []
            [Text ''A'' [(''a'', [])], Text ''B'' [(''b'', [])], Text ''C'' [(''c'', [])]])"
    by (simp add: exABC_def)
  have k: "(kind (Branch Block ''p'' []
            [Text ''A'' [(''a'', [])], Text ''B'' [(''b'', [])], Text ''C'' [(''c'', [])]]) = ''document'')
           = ([0::nat] = [])"
    by simp
  from move_node_same_parent [OF d p k] show ?thesis by blast
qed

subsection \<open>Text nodes in document order\<close>

lemma getTextsIn_append: "getTextsIn (xs @ ys) = getTextsIn xs @ getTextsIn ys"
  by (induction xs) auto

lemma keysIn_append: "keysIn (xs @ ys) = keysIn xs @ keysIn ys"
  by (induction xs) auto

lemma keys_nonempty: "keys n \<noteq> []"
  by (cases n) auto

lemma indexOf_nth:
  "distinct (keysIn ns) \<Longrightarrow> i < length ns \<Longrightarrow> indexOf ns (ns ! i) = Some i"
proof (induction ns arbitrary: i)
  case Nil
  then show ?case by simp
next
  case (Cons a ns)
  show ?case
  proof (cases i)
    case 0
    then show ?thesis by simp
  next
    case (Suc i')
    with Cons.prems have i': "i' < length ns" by simp
    from Cons.prems(1) have dis: "set (keys a) \<inter> set (keysIn ns) = {}" and d: "distinct (keysIn ns)"
      by simp_all
    have "a \<noteq> ns ! i'"
    proof
      assume "a = ns ! i'"
      then have "set (keys a) \<subseteq> set (keysIn ns)" using keys_nth_subset [OF i'] by simp
      from Int_absorb2 [OF this] dis have "set (keys a) = {}" by simp
      then show False using keys_nonempty [of a] by simp
    qed
    with Cons.IH [OF d i'] Suc show ?thesis by simp
  qed
qed

lemma assertPath_self:
  assumes "distinct (keys d)" "assertPath d p = Some d"
  shows "p = []"
proof (cases p)
  case Nil
  then show ?thesis .
next
  case (Cons i q)
  with assms(2) have "assertPath d (i # q) = Some d" by simp
  then obtain b k pr ns where d: "d = Branch b k pr ns" "i < length ns"
    "assertPath (ns ! i) q = Some d"
    unfolding assertPath_Cons by blast
  have "key_of d \<in> set (keys (ns ! i))"
    using assertPath_keys_subset [OF d(3)] key_of_in_keys by blast
  then have "k \<in> set (keysIn ns)"
    using keys_nth_subset [OF d(2)] d(1) by auto
  with assms(1) d(1) show ?thesis by simp
qed

lemma getTextsIn_nth:
  assumes "i < length ns"
  shows "getTextsIn ns = getTextsIn (take i ns) @ getTexts (ns ! i) @ getTextsIn (drop (Suc i) ns)"
proof -
  have "getTextsIn ns = getTextsIn (take i ns @ ns ! i # drop (Suc i) ns)"
    by (rule arg_cong [OF id_take_nth_drop [OF assms]])
  then show ?thesis by (simp only: getTextsIn_append getTextsIn.simps)
qed

lemma getTexts_replaceAt:
  "assertPath d p = Some n \<Longrightarrow> replaceAt d p n' = Some d' \<Longrightarrow>
     \<exists>pre post. getTexts d = pre @ getTexts n @ post \<and> getTexts d' = pre @ getTexts n' @ post"
proof (induction p arbitrary: d d')
  case Nil
  then have "getTexts d = [] @ getTexts n @ [] \<and> getTexts d' = [] @ getTexts n' @ []" by simp
  then show ?case by blast
next
  case (Cons i p)
  from Cons.prems(2) obtain b k pr ns c where d: "d = Branch b k pr ns" "i < length ns"
    "replaceAt (ns ! i) p n' = Some c" "d' = Branch b k pr (ns[i := c])"
    unfolding replaceAt_Cons by blast
  from Cons.prems(1) d(1,2) have a: "assertPath (ns ! i) p = Some n" by simp
  from Cons.IH [OF a d(3)] obtain pre post where
    pp: "getTexts (ns ! i) = pre @ getTexts n @ post" "getTexts c = pre @ getTexts n' @ post"
    by blast
  have ns': "ns[i := c] = take i ns @ c # drop (Suc i) ns"
    using d(2) by (rule upd_conv_take_nth_drop)
  have "getTexts d = (getTextsIn (take i ns) @ pre) @ getTexts n @ (post @ getTextsIn (drop (Suc i) ns))"
    using d(1) pp(1) getTextsIn_nth [OF d(2)] by simp
  moreover have "getTexts d' = (getTextsIn (take i ns) @ pre) @ getTexts n' @ (post @ getTextsIn (drop (Suc i) ns))"
    using d(4) pp(2) by (simp add: ns' getTextsIn_append)
  ultimately show ?case by blast
qed

lemma getTexts_keys_subset: "key_of ` set (getTexts n) \<subseteq> set (keys n)"
  and getTextsIn_keys_subset: "key_of ` set (getTextsIn ns) \<subseteq> set (keysIn ns)"
  by (induction n and ns rule: getTexts_getTextsIn.induct) auto

lemma distinct_getTexts:
  "distinct (keys n) \<Longrightarrow> distinct (map key_of (getTexts n))"
  and distinct_getTextsIn:
  "distinct (keysIn ns) \<Longrightarrow> distinct (map key_of (getTextsIn ns))"
proof (induction n and ns rule: getTexts_getTextsIn.induct)
  case (4 n ns)
  then have "distinct (map key_of (getTexts n))" "distinct (map key_of (getTextsIn ns))"
    "set (keys n) \<inter> set (keysIn ns) = {}"
    by simp_all
  with getTexts_keys_subset [of n] getTextsIn_keys_subset [of ns] show ?case
    by (auto simp: image_subset_iff)
qed auto

lemma getTexts_assertPath:
  "t \<in> set (getTexts n) \<Longrightarrow> \<exists>q. assertPath n q = Some t \<and> kind t = ''text''"
  and getTextsIn_assertPath:
  "t \<in> set (getTextsIn ns) \<Longrightarrow> \<exists>j q. j < length ns \<and> assertPath (ns ! j) q = Some t \<and> kind t = ''text''"
proof (induction n and ns rule: getTexts_getTextsIn.induct)
  case (1 k rs)
  then have "assertPath (Text k rs) [] = Some t \<and> kind t = ''text''" by auto
  then show ?case by blast
next
  case (2 b k pr ns)
  then obtain j q where "j < length ns" "assertPath (ns ! j) q = Some t" "kind t = ''text''"
    by auto
  then have "assertPath (Branch b k pr ns) (j # q) = Some t \<and> kind t = ''text''" by simp
  then show ?case by blast
next
  case 3
  then show ?case by simp
next
  case (4 n ns)
  from "4.prems" consider "t \<in> set (getTexts n)" | "t \<in> set (getTextsIn ns)" by auto
  then show ?case
  proof cases
    case 1
    with "4.IH"(1) obtain q where "assertPath n q = Some t" "kind t = ''text''" by blast
    then have "0 < length (n # ns) \<and> assertPath ((n # ns) ! 0) q = Some t \<and> kind t = ''text''"
      by simp
    then show ?thesis by blast
  next
    case 2
    with "4.IH"(2) obtain j q where "j < length ns" "assertPath (ns ! j) q = Some t" "kind t = ''text''"
      by blast
    then have "Suc j < length (n # ns) \<and> assertPath ((n # ns) ! Suc j) q = Some t \<and> kind t = ''text''"
      by simp
    then show ?thesis by blast
  qed
qed

lemma no_text_with_branch_key:
  assumes "distinct (keys d)" "assertPath d p = Some n" "kind n \<noteq> ''text''"
    "t \<in> set (getTexts d)"
  shows "key_of t \<noteq> key_of n"
proof
  assume eq: "key_of t = key_of n"
  from getTexts_assertPath [OF assms(4)] obtain q where q: "assertPath d q = Some t" "kind t = ''text''"
    by blast
  have "getPath d (key_of t) = Some q" using assertPath_getPath [OF assms(1) q(1)] .
  moreover have "getPath d (key_of n) = Some p" using assertPath_getPath [OF assms(1,2)] .
  ultimately have "q = p" using eq by simp
  with q assms(2,3) show False by simp
qed

lemma distinct_assertPath:
  "distinct (keys d) \<Longrightarrow> assertPath d p = Some n \<Longrightarrow> distinct (keys n)"
proof (induction p arbitrary: d)
  case Nil
  then show ?case by simp
next
  case (Cons i p)
  from Cons.prems(2) obtain b k pr ns where d: "d = Branch b k pr ns" "i < length ns"
    "assertPath (ns ! i) p = Some n"
    unfolding assertPath_Cons by blast
  from Cons.prems(1) d(1) have "distinct (keysIn ns)" by simp
  from Cons.IH [OF distinct_keysIn_nth [OF this d(2)] d(3)] show ?case .
qed

lemma getNextText_after:
  assumes "getTexts d = pre @ t # t' # post" "\<forall>u \<in> set pre. key_of u \<noteq> key_of t"
  shows "getNextText d (key_of t) = Some t'"
proof -
  have "dropWhile (\<lambda>u. key_of u \<noteq> key_of t) (pre @ t # t' # post) = t # t' # post"
    using assms(2) by (simp add: dropWhile_append2)
  with assms(1) show ?thesis by (simp add: getNextText_def)
qed

lemma getNextText_absent:
  assumes "\<forall>u \<in> set (getTexts d). key_of u \<noteq> x"
  shows "getNextText d x = None"
proof -
  have "dropWhile (\<lambda>u. key_of u \<noteq> x) (getTexts d) = []"
    using assms by simp
  then show ?thesis unfolding getNextText_def by (simp only: list.case)
qed

lemma getNextText_split_text:
  assumes dist: "distinct (keys d)"
    and par: "assertPath d pp = Some (Branch b k pr ns)"
    and i: "i < length ns"
    and tx: "ns ! i = Text kx rs"
    and rep: "replaceAt d pp (Branch b k pr (take i ns @ Text kx l # Text k2 r # drop (Suc i) ns)) = Some d'"
  shows "getNextText d' kx = Some (Text k2 r)"
proof -
  from getTexts_replaceAt [OF par rep] obtain pre post where
    t: "getTexts d = pre @ getTexts (Branch b k pr ns) @ post"
       "getTexts d' = pre @ getTexts (Branch b k pr (take i ns @ Text kx l # Text k2 r # drop (Suc i) ns)) @ post"
    by blast
  define tpre where "tpre = pre @ getTextsIn (take i ns)"
  define tpost where "tpost = getTextsIn (drop (Suc i) ns) @ post"
  have t1: "getTexts d = tpre @ Text kx rs # tpost"
    using t(1) getTextsIn_nth [OF i] tx by (simp add: tpre_def tpost_def)
  have t2: "getTexts d' = tpre @ Text kx l # Text k2 r # tpost"
    using t(2) by (simp add: tpre_def tpost_def getTextsIn_append)
  have "distinct (map key_of (getTexts d))"
    using distinct_getTexts [OF dist] .
  with t1 have "\<forall>u \<in> set tpre. key_of u \<noteq> kx" by auto
  then have "\<forall>u \<in> set tpre. key_of u \<noteq> key_of (Text kx l)" by simp
  from getNextText_after [OF t2 this] show ?thesis by simp
qed

lemma getNextText_split_branch:
  assumes dist: "distinct (keys d)"
    and par: "assertPath d pp = Some (Branch b k pr ns)"
    and i: "i < length ns"
    and br: "ns ! i = Branch b' kx pr' cs"
    and rep: "replaceAt d pp (Branch b k pr (take i ns @ Branch b' kx pr' (take pos cs)
                # Branch b' k2 pr' (drop pos cs) # drop (Suc i) ns)) = Some d'"
  shows "getNextText d' kx = None"
proof -
  from getTexts_replaceAt [OF par rep] obtain pre post where
    t: "getTexts d = pre @ getTexts (Branch b k pr ns) @ post"
       "getTexts d' = pre @ getTexts (Branch b k pr (take i ns @ Branch b' kx pr' (take pos cs)
                # Branch b' k2 pr' (drop pos cs) # drop (Suc i) ns)) @ post"
    by blast
  have "getTextsIn (take pos cs) @ getTextsIn (drop pos cs) = getTextsIn cs"
    using getTextsIn_append [of "take pos cs" "drop pos cs"] by simp
  then have "getTexts d' = getTexts d"
    using t getTextsIn_nth [OF i] br by (simp add: getTextsIn_append)
  moreover have "assertPath d (pp @ [i]) = Some (Branch b' kx pr' cs)"
    using par i br by (simp add: assertPath_append)
  then have "\<forall>u \<in> set (getTexts d). key_of u \<noteq> kx"
    using no_text_with_branch_key [OF dist, of "pp @ [i]" "Branch b' kx pr' cs"]
    by (cases b') auto
  ultimately show ?thesis by (simp add: getNextText_absent)
qed

subsection \<open>Splitting a node\<close>

lemma split_node_at:
  assumes dist: "distinct (keys (document s))"
    and par: "assertPath (document s) pp = Some (Branch b k pr ns)"
    and i: "i < length ns"
    and halves: "splitHalves (ns ! i) position (generateKey (nextKey s)) = (one, two)"
    and rep: "replaceAt (document s) pp (Branch b k pr (take i ns @ one # two # drop (Suc i) ns)) = Some d'"
  shows "split_node s (pp @ [i]) position =
     do {
       sel1 \<leftarrow> (if Some (key_of (ns ! i)) = startKey (selection s) \<and> int position \<le> startOffset (selection s)
                then map_option (\<lambda>n. moveStartTo (key_of n) (startOffset (selection s) - int position) (selection s))
                       (getNextText d' (key_of (ns ! i)))
                else Some (selection s));
       sel2 \<leftarrow> (if Some (key_of (ns ! i)) = endKey (selection s) \<and> int position \<le> endOffset (selection s)
                then map_option (\<lambda>n. moveEndTo (key_of n) (endOffset (selection s) - int position) sel1)
                       (getNextText d' (key_of (ns ! i)))
                else Some sel1);
       Some (s\<lparr>document := d', selection := sel2, nextKey := Suc (nextKey s)\<rparr>)
     }"
proof -
  define parent1 where "parent1 = Branch b k pr (take i ns @ one # two # drop (Suc i) ns)"
  have node: "assertPath (document s) (pp @ [i]) = Some (ns ! i)"
    using par i by (simp add: assertPath_append)
  have parent: "getParent (document s) (key_of (ns ! i)) = Some (Branch b k pr ns)"
    using getParent_child [OF dist par i] .
  have "distinct (keys (Branch b k pr ns))"
    using distinct_assertPath [OF dist par] .
  then have idx: "indexOf ns (ns ! i) = Some i"
    using indexOf_nth [of ns i] i by simp
  have spl: "splitNode i position (generateKey (nextKey s)) (Branch b k pr ns) = Some parent1"
    using i halves by (simp add: parent1_def)
  have isP: "(Branch b k pr ns = document s) = (pp = [])"
    using assertPath_self [OF dist, of pp] par by auto
  have doc: "(if pp = [] then Some parent1 else updateDescendant (document s) parent1) = Some d'"
  proof (cases "pp = []")
    case True
    with par rep show ?thesis by (simp add: parent1_def)
  next
    case False
    then show ?thesis
      using updateDescendant_at [OF dist par False, of parent1] rep by (simp add: parent1_def)
  qed
  show ?thesis
    by (simp only: split_node_def Let_def node parent idx spl isP doc
          Option.bind.simps nodes_of.simps)
qed

text \<open>
  The two moves of \<^verbatim>\<open>split_node\<close> on the selection alone. \<open>qa\<close> and \<open>qf\<close> say that
  the anchor and the focus are on the split node at or after the position.
\<close>

lemma split_moves:
  assumes new: "new \<noteq> k"
    and ok: "\<not> (isBackward sel = Some True \<and> qa \<and> qf)"
    and qa: "qa \<longleftrightarrow> anchorKey sel = Some k \<and> p \<le> anchorOffset sel"
    and qf: "qf \<longleftrightarrow> focusKey sel = Some k \<and> p \<le> focusOffset sel"
    and cs: "cs \<longleftrightarrow> Some k = startKey sel \<and> p \<le> startOffset sel"
    and ce: "ce \<longleftrightarrow> Some k = endKey sel \<and> p \<le> endOffset sel"
    and sel': "sel' = (let sel1 = (if cs then moveStartTo new (startOffset sel - p) sel else sel)
                       in if ce then moveEndTo new (endOffset sel - p) sel1 else sel1)"
  shows "anchorKey sel' = (if qa then Some new else anchorKey sel)
     \<and> anchorOffset sel' = (if qa then anchorOffset sel - p else anchorOffset sel)
     \<and> focusKey sel' = (if qf then Some new else focusKey sel)
     \<and> focusOffset sel' = (if qf then focusOffset sel - p else focusOffset sel)"
proof (cases "isBackward sel = Some True")
  case True
  then have se: "startKey sel = focusKey sel" "startOffset sel = focusOffset sel"
    "endKey sel = anchorKey sel" "endOffset sel = anchorOffset sel"
    by (simp_all add: startKey_def startOffset_def endKey_def endOffset_def)
  have c: "cs = qf" "ce = qa" unfolding cs ce qa qf se by auto
  from ok True have nb: "\<not> (qa \<and> qf)" by simp
  show ?thesis
  proof (cases qf)
    case qfT: True
    with nb have "\<not> qa" by simp
    with qfT show ?thesis
      unfolding sel' c se by (simp add: True moveStartTo_def moveFocusTo_def)
  next
    case qfF: False
    show ?thesis
    proof (cases qa)
      case qaT: True
      with qfF show ?thesis
        unfolding sel' c se by (simp add: True moveEndTo_def moveAnchorTo_def)
    next
      case qaF: False
      with qfF show ?thesis unfolding sel' c by simp
    qed
  qed
next
  case False
  then have se: "startKey sel = anchorKey sel" "startOffset sel = anchorOffset sel"
    "endKey sel = focusKey sel" "endOffset sel = focusOffset sel"
    by (simp_all add: startKey_def startOffset_def endKey_def endOffset_def)
  have c: "cs = qa" "ce = qf" unfolding cs ce qa qf se by auto
  show ?thesis
  proof (cases qa)
    case qaT: True
    define sel1 where "sel1 = moveAnchorTo new (anchorOffset sel - p) sel"
    show ?thesis
    proof (cases qf)
      case qfT: True
      from qfT new have fk: "focusKey sel = Some k" unfolding qf by simp
      from qaT have ak: "anchorKey sel = Some k" unfolding qa by simp
      have b1: "isBackward sel1 = None"
        using new fk ak by (simp add: sel1_def moveAnchorTo_def)
      have "sel' = moveFocusTo new (focusOffset sel - p) sel1"
        unfolding sel' c se using qaT qfT False b1
        by (simp add: moveStartTo_def moveEndTo_def sel1_def [symmetric])
      with qaT qfT show ?thesis
        by (simp add: sel1_def moveAnchorTo_def moveFocusTo_def)
    next
      case qfF: False
      have "sel' = sel1"
        unfolding sel' c se using qaT qfF False
        by (simp add: moveStartTo_def sel1_def [symmetric])
      with qaT qfF show ?thesis
        by (simp add: sel1_def moveAnchorTo_def)
    qed
  next
    case qaF: False
    show ?thesis
    proof (cases qf)
      case qfT: True
      have "sel' = moveFocusTo new (focusOffset sel - p) sel"
        unfolding sel' c se using qaF qfT False
        by (simp add: moveEndTo_def)
      with qaF qfT show ?thesis
        by (simp add: moveFocusTo_def)
    next
      case qfF: False
      with qaF show ?thesis unfolding sel' c by simp
    qed
  qed
qed

text \<open>
  C5. \<^verbatim>\<open>split_node\<close> means to relocate every point of the selection that is on the
  split node at or after the position to the new right sibling, with the offset
  decreased by the position: it moves the start, then the end. On a backward selection
  with both points at or after the position it does not. The start is the focus;
  moving it to the new node leaves the order of the points unknown, which reads as
  forward, so that the move of the end takes the focus again. Here the node \<open>t\<close> is
  split at 2 with the anchor at offset 5 and the focus at offset 2 of \<open>t\<close>: the focus
  ends at offset 3 of the new node \<open>0\<close> and the anchor is still at offset 5 of \<open>t\<close>,
  which has two characters left; the claim has the anchor at offset 3 and the focus at
  offset 0 of the new node.
\<close>

theorem split_node_backward_selection:
  "split_node exState [0, 0] 2 =
     Some \<lparr>document = Branch Document ''d'' []
              [Branch Block ''p'' [] [Text ''t'' [(''ab'', [])], Text ''0'' [(''cdefgh'', [])]]],
           selection = \<lparr>anchorKey = Some ''t'', anchorOffset = 5, focusKey = Some ''0'',
             focusOffset = 3, isBackward = None\<rparr>,
           data = [], nextKey = 1\<rparr>"
  by code_simp

text \<open>
  The other selections are rebased as C5 says. In a document with unique keys that
  does not hold the key that the generator issues next, after a successful
  \<^verbatim>\<open>split_node\<close> the node at the path is the left half with the key of the split
  node and its next sibling is the right half with the new key. Unless the selection
  is backward with both points on the split node at or after the position, a point on
  the split node at or after the position is on the right half with its offset
  decreased by the position, and any other point is where it was.
\<close>

theorem split_node_points:
  assumes dist: "distinct (keys (document s))"
    and fresh: "generateKey (nextKey s) \<notin> set (keys (document s))"
    and succ: "split_node s p position = Some s'"
    and node: "assertPath (document s) p = Some node"
    and ok: "\<not> (isBackward (selection s) = Some True
               \<and> anchorKey (selection s) = Some (key_of node)
               \<and> int position \<le> anchorOffset (selection s)
               \<and> focusKey (selection s) = Some (key_of node)
               \<and> int position \<le> focusOffset (selection s))"
  shows "\<exists>one two. splitHalves node position (generateKey (nextKey s)) = (one, two)
       \<and> assertPath (document s') p = Some one
       \<and> assertPath (document s') (butlast p @ [Suc (last p)]) = Some two
       \<and> key_of one = key_of node
       \<and> key_of two = generateKey (nextKey s)
       \<and> (if anchorKey (selection s) = Some (key_of node) \<and> int position \<le> anchorOffset (selection s)
          then anchorKey (selection s') = Some (key_of two)
             \<and> anchorOffset (selection s') = anchorOffset (selection s) - int position
          else anchorKey (selection s') = anchorKey (selection s)
             \<and> anchorOffset (selection s') = anchorOffset (selection s))
       \<and> (if focusKey (selection s) = Some (key_of node) \<and> int position \<le> focusOffset (selection s)
          then focusKey (selection s') = Some (key_of two)
             \<and> focusOffset (selection s') = focusOffset (selection s) - int position
          else focusKey (selection s') = focusKey (selection s)
             \<and> focusOffset (selection s') = focusOffset (selection s))"
proof -
  have gp: "getPath (document s) (key_of node) = Some p"
    using assertPath_getPath [OF dist node] .
  from succ have "getParent (document s) (key_of node) \<noteq> None"
    by (auto simp: split_node_def node Let_def split: bind_splits)
  with gp have pne: "p \<noteq> []"
    by (auto simp: getParent_def)
  define pp where "pp = butlast p"
  define i where "i = last p"
  have p: "p = pp @ [i]" using pne by (simp add: pp_def i_def)
  from node obtain parent where par0: "assertPath (document s) pp = Some parent"
    and ch: "assertPath parent [i] = Some node"
    unfolding p assertPath_append by (auto split: option.splits)
  from ch obtain b k pr ns where par1: "parent = Branch b k pr ns" and i: "i < length ns"
    and nth: "ns ! i = node"
    by (cases parent) (auto split: if_splits)
  note par = par0 [unfolded par1]
  obtain one two where halves: "splitHalves (ns ! i) position (generateKey (nextKey s)) = (one, two)"
    by (cases "splitHalves (ns ! i) position (generateKey (nextKey s))") auto
  define parent1 where "parent1 = Branch b k pr (take i ns @ one # two # drop (Suc i) ns)"
  obtain d' where rep: "replaceAt (document s) pp parent1 = Some d'"
    and at: "assertPath d' pp = Some parent1"
    using replaceAt_assertPath [OF par] by blast
  note eq = split_node_at [OF dist par i halves rep [unfolded parent1_def], folded p, unfolded nth]
  have a1: "assertPath d' p = Some one"
    using at i unfolding p by (simp add: assertPath_append parent1_def nth_append)
  have a2: "assertPath d' (butlast p @ [Suc (last p)]) = Some two"
    using at i unfolding p by (simp add: assertPath_append parent1_def nth_append)
  have k1: "key_of one = key_of node"
    using halves nth by (cases node) auto
  have k2: "key_of two = generateKey (nextKey s)"
    using halves nth by (cases node) auto
  have "key_of node \<in> set (keys (document s))"
    using assertPath_keys_subset [OF node] key_of_in_keys [of node] by blast
  with fresh k2 have new: "key_of two \<noteq> key_of node" by auto
  define sel where "sel = selection s"
  define cs where "cs \<longleftrightarrow> Some (key_of node) = startKey sel \<and> int position \<le> startOffset sel"
  define ce where "ce \<longleftrightarrow> Some (key_of node) = endKey sel \<and> int position \<le> endOffset sel"
  define qa where "qa \<longleftrightarrow> anchorKey sel = Some (key_of node) \<and> int position \<le> anchorOffset sel"
  define qf where "qf \<longleftrightarrow> focusKey sel = Some (key_of node) \<and> int position \<le> focusOffset sel"
  define so where "so = startOffset sel - int position"
  define eo where "eo = endOffset sel - int position"
  have run: "Some s' =
     do {
       sel1 \<leftarrow> (if cs then map_option (\<lambda>n. moveStartTo (key_of n) so sel)
                               (getNextText d' (key_of node))
                else Some sel);
       sel2 \<leftarrow> (if ce then map_option (\<lambda>n. moveEndTo (key_of n) eo sel1)
                               (getNextText d' (key_of node))
                else Some sel1);
       Some (s\<lparr>document := d', selection := sel2, nextKey := Suc (nextKey s)\<rparr>)
     }"
    using succ [unfolded eq, symmetric] unfolding cs_def ce_def so_def eo_def sel_def .
  have ds: "document s' = d'"
    using run by (cases cs; cases ce; cases "getNextText d' (key_of node)"; simp)
  have nx: "getNextText d' (key_of node) = Some two \<or> getNextText d' (key_of node) = None"
  proof (cases node)
    case (Text kx rs)
    with halves nth obtain l r where lr: "one = Text kx l" "two = Text (generateKey (nextKey s)) r"
      by auto
    show ?thesis
      using getNextText_split_text [OF dist par i _ rep [unfolded parent1_def lr], of rs] nth Text lr
      by simp
  next
    case (Branch b' kx pr' cs)
    with halves nth have lr: "one = Branch b' kx pr' (take position cs)"
      "two = Branch b' (generateKey (nextKey s)) pr' (drop position cs)"
      by auto
    show ?thesis
      using getNextText_split_branch [OF dist par i _ rep [unfolded parent1_def lr]] nth Branch
      by simp
  qed
  have sel': "selection s' =
     (let sel1 = (if cs then moveStartTo (key_of two) (startOffset sel - int position) sel else sel)
      in if ce then moveEndTo (key_of two) (endOffset sel - int position) sel1 else sel1)"
    using nx run unfolding so_def eo_def by (cases cs; cases ce) auto
  have ok': "\<not> (isBackward sel = Some True \<and> qa \<and> qf)"
    using ok unfolding qa_def qf_def sel_def by blast
  note m = split_moves [OF new ok' qa_def qf_def cs_def ce_def sel']
  show ?thesis
  proof (intro exI conjI)
    show "splitHalves node position (generateKey (nextKey s)) = (one, two)"
      using halves nth by simp
    show "assertPath (document s') p = Some one" using a1 ds by simp
    show "assertPath (document s') (butlast p @ [Suc (last p)]) = Some two" using a2 ds by simp
    show "key_of one = key_of node" by (rule k1)
    show "key_of two = generateKey (nextKey s)" by (rule k2)
    show "if anchorKey (selection s) = Some (key_of node) \<and> int position \<le> anchorOffset (selection s)
          then anchorKey (selection s') = Some (key_of two)
             \<and> anchorOffset (selection s') = anchorOffset (selection s) - int position
          else anchorKey (selection s') = anchorKey (selection s)
             \<and> anchorOffset (selection s') = anchorOffset (selection s)"
      using m unfolding qa_def sel_def by simp
    show "if focusKey (selection s) = Some (key_of node) \<and> int position \<le> focusOffset (selection s)
          then focusKey (selection s') = Some (key_of two)
             \<and> focusOffset (selection s') = focusOffset (selection s) - int position
          else focusKey (selection s') = focusKey (selection s)
             \<and> focusOffset (selection s') = focusOffset (selection s)"
      using m unfolding qf_def sel_def by simp
  qed
qed

text \<open>
  The node \<open>t\<close> split at 3 with the anchor at offset 5 and the focus at offset 2 of
  \<open>t\<close>: the anchor moves to offset 2 of the new node, the focus stays.
\<close>

theorem split_node_points_witness:
  "\<exists>s'. split_node exState [0, 0] 3 = Some s'
      \<and> assertPath (document s') [0, 0] = Some (Text ''t'' [(''abc'', [])])
      \<and> assertPath (document s') [0, 1] = Some (Text ''0'' [(''defgh'', [])])
      \<and> anchorKey (selection exState) = Some ''t'' \<and> anchorOffset (selection exState) = 5
      \<and> focusKey (selection exState) = Some ''t'' \<and> focusOffset (selection exState) = 2
      \<and> anchorKey (selection s') = Some ''0'' \<and> anchorOffset (selection s') = 2
      \<and> focusKey (selection s') = Some ''t'' \<and> focusOffset (selection s') = 2"
proof -
  have d: "distinct (keys (document exState))"
    by (simp add: exState_def exDoc_def)
  have g: "generateKey (nextKey exState) = ''0''"
    by code_simp
  have f: "generateKey (nextKey exState) \<notin> set (keys (document exState))"
    unfolding g by (simp add: exState_def exDoc_def)
  have n: "assertPath (document exState) [0, 0] = Some (Text ''t'' [(''abcdefgh'', [])])"
    by (simp add: exState_def exDoc_def)
  have "split_node exState [0, 0] 3 \<noteq> None"
    by code_simp
  then obtain s1 where s1: "split_node exState [0, 0] 3 = Some s1" by blast
  have h: "splitHalves (Text ''t'' [(''abcdefgh'', [])]) 3 (generateKey (nextKey exState))
             = (Text ''t'' [(''abc'', [])], Text ''0'' [(''defgh'', [])])"
    by code_simp
  have sel: "anchorKey (selection exState) = Some ''t''" "anchorOffset (selection exState) = 5"
    "focusKey (selection exState) = Some ''t''" "focusOffset (selection exState) = 2"
    by (simp_all add: exState_def)
  have ok: "\<not> (isBackward (selection exState) = Some True
               \<and> anchorKey (selection exState) = Some (key_of (Text ''t'' [(''abcdefgh'', [])]))
               \<and> int 3 \<le> anchorOffset (selection exState)
               \<and> focusKey (selection exState) = Some (key_of (Text ''t'' [(''abcdefgh'', [])]))
               \<and> int 3 \<le> focusOffset (selection exState))"
    by (simp add: exState_def)
  from split_node_points [OF d f s1 n ok] h sel s1 show ?thesis
    by auto
qed

subsection \<open>Removing a node\<close>

lemma deselect_simps:
  "anchorKey (deselect sel) = None" "focusKey (deselect sel) = None"
  "startKey (deselect sel) = None" "endKey (deselect sel) = None"
  "\<not> isSet (deselect sel)" "deselect (deselect sel) = deselect sel"
  by (simp_all add: deselect_def startKey_def endKey_def isSet_def)

lemma getPreviousText_in:
  assumes "getPreviousText d x = Some prev"
  shows "prev \<in> set (getTexts d) \<and> key_of prev \<noteq> x"
proof -
  define before where "before = takeWhile (\<lambda>t. key_of t \<noteq> x) (getTexts d)"
  from assms have ne: "before \<noteq> []" and pv: "prev = last before"
    by (auto simp: getPreviousText_def Let_def before_def split: if_splits)
  then have "prev \<in> set before" by simp
  then show ?thesis
    unfolding before_def by (auto dest: set_takeWhileD)
qed

lemma getNextText_in:
  assumes "getNextText d x = Some nx" "distinct (map key_of (getTexts d))"
  shows "nx \<in> set (getTexts d) \<and> key_of nx \<noteq> x"
proof -
  from assms(1) obtain t ts where dw: "dropWhile (\<lambda>t. key_of t \<noteq> x) (getTexts d) = t # nx # ts"
    by (auto simp: getNextText_def split: list.splits)
  have "getTexts d = takeWhile (\<lambda>t. key_of t \<noteq> x) (getTexts d) @ t # nx # ts"
    using takeWhile_dropWhile_id [of "\<lambda>t. key_of t \<noteq> x" "getTexts d"] unfolding dw by simp
  then obtain pre where g: "getTexts d = pre @ t # nx # ts" by blast
  from dw have "key_of t = x"
    using hd_dropWhile [of "\<lambda>t. key_of t \<noteq> x" "getTexts d"] by auto
  with assms(2) g show ?thesis by auto
qed

lemma only_text:
  assumes "getPreviousText d x = None" "getNextText d x = None"
    "x \<in> key_of ` set (getTexts d)"
  shows "\<exists>t. getTexts d = [t]"
proof -
  define ts where "ts = getTexts d"
  from assms(3) have ex: "\<exists>t \<in> set ts. \<not> key_of t \<noteq> x" by (auto simp: ts_def)
  have "length (takeWhile (\<lambda>t. key_of t \<noteq> x) ts) \<noteq> length ts"
  proof
    assume eq: "length (takeWhile (\<lambda>t. key_of t \<noteq> x) ts) = length ts"
    have "length (takeWhile (\<lambda>t. key_of t \<noteq> x) ts @ dropWhile (\<lambda>t. key_of t \<noteq> x) ts) = length ts"
      by simp
    with eq have "dropWhile (\<lambda>t. key_of t \<noteq> x) ts = []"
      by (simp del: takeWhile_dropWhile_id)
    with ex show False by simp
  qed
  with assms(1) have tw: "takeWhile (\<lambda>t. key_of t \<noteq> x) ts = []"
    by (auto simp: getPreviousText_def Let_def ts_def split: if_splits)
  from ex obtain t ts' where c: "ts = t # ts'" by (cases ts) auto
  with tw have "key_of t = x" by (auto split: if_splits)
  with c have "dropWhile (\<lambda>t. key_of t \<noteq> x) ts = t # ts'" by simp
  with assms(2) have "ts' = []"
    by (cases ts') (auto simp: getNextText_def ts_def)
  with c show ?thesis by (simp add: ts_def)
qed

lemma remove_node_at:
  assumes dist: "distinct (keys (document s))"
    and par: "assertPath (document s) pp = Some (Branch b k pr ns)"
    and i: "i < length ns"
    and rep: "replaceAt (document s) pp (Branch b k pr (take i ns @ drop (Suc i) ns)) = Some d'"
  shows "remove_node s (pp @ [i]) =
     Some (s\<lparr>document := d',
        selection :=
          (if isSet (selection s)
           then (let sel1 = (if hasNode (ns ! i) (startKey (selection s))
                             then relocate (document s) (startKey (selection s)) moveStartTo (selection s)
                             else selection s)
                 in (if hasNode (ns ! i) (endKey (selection s))
                     then relocate (document s) (endKey (selection s)) moveEndTo sel1
                     else sel1))
           else selection s)\<rparr>)"
proof -
  define parent1 where "parent1 = Branch b k pr (take i ns @ drop (Suc i) ns)"
  have node: "assertPath (document s) (pp @ [i]) = Some (ns ! i)"
    using par i by (simp add: assertPath_append)
  have parent: "getParent (document s) (key_of (ns ! i)) = Some (Branch b k pr ns)"
    using getParent_child [OF dist par i] .
  have "distinct (keys (Branch b k pr ns))"
    using distinct_assertPath [OF dist par] .
  then have idx: "indexOf ns (ns ! i) = Some i"
    using indexOf_nth [of ns i] i by simp
  have rem: "removeNode i (Branch b k pr ns) = Some parent1"
    by (simp add: parent1_def)
  have isP: "(document s = Branch b k pr ns) = (pp = [])"
    using assertPath_self [OF dist, of pp] par by auto
  have doc: "(if pp = [] then Some parent1 else updateDescendant (document s) parent1) = Some d'"
  proof (cases "pp = []")
    case True
    with par rep show ?thesis by (simp add: parent1_def)
  next
    case False
    then show ?thesis
      using updateDescendant_at [OF dist par False, of parent1] rep by (simp add: parent1_def)
  qed
  show ?thesis
    by (simp only: remove_node_def Let_def node parent idx rem isP doc
          Option.bind.simps nodes_of.simps)
qed

lemma remove_moves:
  assumes new: "y \<noteq> k"
    and ok: "\<not> (isBackward sel = Some True \<and> anchorKey sel = Some k \<and> focusKey sel = Some k)"
    and sel': "sel' = (let sel1 = (if startKey sel = Some k then moveStartTo y off sel else sel)
                       in if endKey sel = Some k then moveEndTo y off sel1 else sel1)"
  shows "anchorKey sel' = (if anchorKey sel = Some k then Some y else anchorKey sel)
     \<and> anchorOffset sel' = (if anchorKey sel = Some k then off else anchorOffset sel)
     \<and> focusKey sel' = (if focusKey sel = Some k then Some y else focusKey sel)
     \<and> focusOffset sel' = (if focusKey sel = Some k then off else focusOffset sel)"
proof (cases "isBackward sel = Some True")
  case True
  then have se: "startKey sel = focusKey sel" "endKey sel = anchorKey sel"
    by (simp_all add: startKey_def endKey_def)
  from ok True have nb: "\<not> (anchorKey sel = Some k \<and> focusKey sel = Some k)" by simp
  show ?thesis
  proof (cases "focusKey sel = Some k")
    case qfT: True
    with nb have "anchorKey sel \<noteq> Some k" by simp
    with qfT show ?thesis
      unfolding sel' se by (simp add: True moveStartTo_def moveFocusTo_simps)
  next
    case qfF: False
    show ?thesis
    proof (cases "anchorKey sel = Some k")
      case qaT: True
      with qfF show ?thesis
        unfolding sel' se by (simp add: True moveEndTo_def moveAnchorTo_simps)
    next
      case qaF: False
      with qfF show ?thesis unfolding sel' se by simp
    qed
  qed
next
  case False
  then have se: "startKey sel = anchorKey sel" "endKey sel = focusKey sel"
    by (simp_all add: startKey_def endKey_def)
  show ?thesis
  proof (cases "anchorKey sel = Some k")
    case qaT: True
    define sel1 where "sel1 = moveAnchorTo y off sel"
    show ?thesis
    proof (cases "focusKey sel = Some k")
      case qfT: True
      have b1: "isBackward sel1 = None"
        using new qaT qfT by (simp add: sel1_def moveAnchorTo_def)
      have "sel' = moveFocusTo y off sel1"
        unfolding sel' se using qaT qfT False b1
        by (simp add: moveStartTo_def moveEndTo_def sel1_def [symmetric])
      with qaT qfT show ?thesis
        by (simp add: sel1_def moveAnchorTo_simps moveFocusTo_simps)
    next
      case qfF: False
      have "sel' = sel1"
        unfolding sel' se using qaT qfF False
        by (simp add: moveStartTo_def sel1_def [symmetric])
      with qaT qfF show ?thesis
        by (simp add: sel1_def moveAnchorTo_simps)
    qed
  next
    case qaF: False
    show ?thesis
    proof (cases "focusKey sel = Some k")
      case qfT: True
      have "sel' = moveFocusTo y off sel"
        unfolding sel' se using qaF qfT False
        by (simp add: moveEndTo_def)
      with qaF qfT show ?thesis
        by (simp add: moveFocusTo_simps)
    next
      case qfF: False
      with qaF show ?thesis unfolding sel' se by simp
    qed
  qed
qed

text \<open>
  C8. \<^verbatim>\<open>remove_node\<close> means to take the points of the selection out of the removed
  subtree. It looks for the Text node before, and then after, the point's own Text
  node in the document as it is before the removal, and so may pick a Text node of the
  removed subtree itself. Here the block \<open>p\<close> holds the Text node \<open>a\<close>, the inline \<open>i\<close>
  with the Text node \<open>b\<close>, and the Text node \<open>c\<close>; both points are at offset 1 of
  \<open>b\<close> and the block is removed. The document is left without any Text node, and the
  selection is still set, on \<open>a\<close> at offset 2, a node that is gone; the claim has the
  selection unset.
\<close>

theorem remove_node_stale_selection:
  "map_option (\<lambda>s'. (document s', selection s', isSet (selection s'), getTexts (document s')))
     (remove_node exInline [0])
   = Some (Branch Document ''d'' [] [],
           \<lparr>anchorKey = Some ''a'', anchorOffset = 2, focusKey = Some ''a'', focusOffset = 2,
             isBackward = Some False\<rparr>,
           True, [])"
  by code_simp

lemma filter_others:
  assumes "distinct (map key_of (A @ t # B))"
  shows "filter (\<lambda>u. key_of u \<noteq> key_of t) (A @ t # B) = A @ B"
proof -
  from assms have "key_of t \<notin> key_of ` set A" "key_of t \<notin> key_of ` set B"
    by auto
  then have "\<forall>u \<in> set A. key_of u \<noteq> key_of t" "\<forall>u \<in> set B. key_of u \<noteq> key_of t"
    by (auto simp: image_iff)
  then show ?thesis by simp
qed

text \<open>
  The removal of a single Text node rebases the selection as C8 says. In a document
  with unique keys, after a successful \<^verbatim>\<open>remove_node\<close> of the Text node \<open>k\<close> the
  Text nodes of the document are the other Text nodes. Unless the selection is
  backward with both points on \<open>k\<close>, a point on \<open>k\<close> is at the end of the Text node
  that precedes \<open>k\<close>, a node that is still in the document; if there is none, at
  offset 0 of the Text node that follows; and if there is neither, the document has no
  Text node left and both points are cleared. A point on another node is where it was.
\<close>

theorem remove_node_text_selection:
  assumes dist: "distinct (keys (document s))"
    and succ: "remove_node s p = Some s'"
    and node: "assertPath (document s) p = Some (Text k rs)"
    and iset: "isSet (selection s)"
    and ok: "\<not> (isBackward (selection s) = Some True
               \<and> anchorKey (selection s) = Some k \<and> focusKey (selection s) = Some k)"
  shows "getTexts (document s') = filter (\<lambda>t. key_of t \<noteq> k) (getTexts (document s))
     \<and> (case getPreviousText (document s) k of
          Some prev \<Rightarrow>
            prev \<in> set (getTexts (document s'))
            \<and> anchorKey (selection s') =
                (if anchorKey (selection s) = Some k then Some (key_of prev) else anchorKey (selection s))
            \<and> anchorOffset (selection s') =
                (if anchorKey (selection s) = Some k then int (length_of prev) else anchorOffset (selection s))
            \<and> focusKey (selection s') =
                (if focusKey (selection s) = Some k then Some (key_of prev) else focusKey (selection s))
            \<and> focusOffset (selection s') =
                (if focusKey (selection s) = Some k then int (length_of prev) else focusOffset (selection s))
        | None \<Rightarrow>
            (case getNextText (document s) k of
               Some next \<Rightarrow>
                 next \<in> set (getTexts (document s'))
                 \<and> anchorKey (selection s') =
                     (if anchorKey (selection s) = Some k then Some (key_of next) else anchorKey (selection s))
                 \<and> anchorOffset (selection s') =
                     (if anchorKey (selection s) = Some k then 0 else anchorOffset (selection s))
                 \<and> focusKey (selection s') =
                     (if focusKey (selection s) = Some k then Some (key_of next) else focusKey (selection s))
                 \<and> focusOffset (selection s') =
                     (if focusKey (selection s) = Some k then 0 else focusOffset (selection s))
             | None \<Rightarrow>
                 getTexts (document s') = []
                 \<and> (if anchorKey (selection s) = Some k \<or> focusKey (selection s) = Some k
                    then anchorKey (selection s') = None \<and> focusKey (selection s') = None
                    else selection s' = selection s)))"
proof -
  define d where "d = document s"
  define sel where "sel = selection s"
  note dist' = dist [folded d_def] and node' = node [folded d_def]
  have gp: "getPath d k = Some p"
    using assertPath_getPath [OF dist' node'] by simp
  from succ have "getParent d (key_of (Text k rs)) \<noteq> None"
    by (auto simp: remove_node_def node d_def Let_def split: bind_splits)
  with gp have pne: "p \<noteq> []"
    by (auto simp: getParent_def)
  define pp where "pp = butlast p"
  define i where "i = last p"
  have p: "p = pp @ [i]" using pne by (simp add: pp_def i_def)
  from node' obtain parent where par0: "assertPath d pp = Some parent"
    and ch: "assertPath parent [i] = Some (Text k rs)"
    unfolding p assertPath_append by (auto split: option.splits)
  from ch obtain b k' pr ns where par1: "parent = Branch b k' pr ns" and i: "i < length ns"
    and nth: "ns ! i = Text k rs"
    by (cases parent) (auto split: if_splits)
  note par = par0 [unfolded par1]
  define parent1 where "parent1 = Branch b k' pr (take i ns @ drop (Suc i) ns)"
  obtain d' where rep: "replaceAt d pp parent1 = Some d'"
    using replaceAt_assertPath [OF par] by blast
  note eq = remove_node_at [OF dist par [unfolded d_def] i rep [unfolded parent1_def d_def],
      folded p, unfolded nth, folded d_def sel_def]
  from succ [unfolded eq] have ds: "document s' = d'"
    and sel0: "selection s' =
          (if isSet sel
           then (let sel1 = (if hasNode (Text k rs) (startKey sel)
                             then relocate d (startKey sel) moveStartTo sel
                             else sel)
                 in (if hasNode (Text k rs) (endKey sel)
                     then relocate d (endKey sel) moveEndTo sel1
                     else sel1))
           else sel)"
    by auto
  have hn: "hasNode (Text k rs) x \<longleftrightarrow> x = Some k" for x
    by (cases x) (auto simp: hasNode_def)
  have sel1: "selection s' =
     (let sel1 = (if startKey sel = Some k then relocate d (Some k) moveStartTo sel else sel)
      in if endKey sel = Some k then relocate d (Some k) moveEndTo sel1 else sel1)"
    unfolding sel0 hn using iset by (simp add: sel_def Let_def)
  from getTexts_replaceAt [OF par rep] obtain pre post where
    t: "getTexts d = pre @ getTexts (Branch b k' pr ns) @ post"
       "getTexts d' = pre @ getTexts parent1 @ post"
    by blast
  define A where "A = pre @ getTextsIn (take i ns)"
  define B where "B = getTextsIn (drop (Suc i) ns) @ post"
  have t1: "getTexts d = A @ Text k rs # B"
    using t(1) getTextsIn_nth [OF i] nth by (simp add: A_def B_def)
  have t2: "getTexts d' = A @ B"
    using t(2) by (simp add: A_def B_def parent1_def getTextsIn_append)
  have dt: "distinct (map key_of (getTexts d))"
    using distinct_getTexts [OF dist'] .
  have texts: "getTexts (document s') = filter (\<lambda>t. key_of t \<noteq> k) (getTexts d)"
    using filter_others [of A "Text k rs" B] dt unfolding ds t1 t2 by simp
  have kin: "k \<in> key_of ` set (getTexts d)"
    unfolding t1 by force
  have ok': "\<not> (isBackward sel = Some True \<and> anchorKey sel = Some k \<and> focusKey sel = Some k)"
    using ok by (simp add: sel_def)
  have se: "(startKey sel = Some k \<or> endKey sel = Some k)
       \<longleftrightarrow> (anchorKey sel = Some k \<or> focusKey sel = Some k)"
    by (auto simp: startKey_def endKey_def)
  have rest: "case getPreviousText d k of
          Some prev \<Rightarrow>
            prev \<in> set (getTexts (document s'))
            \<and> anchorKey (selection s') =
                (if anchorKey sel = Some k then Some (key_of prev) else anchorKey sel)
            \<and> anchorOffset (selection s') =
                (if anchorKey sel = Some k then int (length_of prev) else anchorOffset sel)
            \<and> focusKey (selection s') =
                (if focusKey sel = Some k then Some (key_of prev) else focusKey sel)
            \<and> focusOffset (selection s') =
                (if focusKey sel = Some k then int (length_of prev) else focusOffset sel)
        | None \<Rightarrow>
            (case getNextText d k of
               Some next \<Rightarrow>
                 next \<in> set (getTexts (document s'))
                 \<and> anchorKey (selection s') =
                     (if anchorKey sel = Some k then Some (key_of next) else anchorKey sel)
                 \<and> anchorOffset (selection s') =
                     (if anchorKey sel = Some k then 0 else anchorOffset sel)
                 \<and> focusKey (selection s') =
                     (if focusKey sel = Some k then Some (key_of next) else focusKey sel)
                 \<and> focusOffset (selection s') =
                     (if focusKey sel = Some k then 0 else focusOffset sel)
             | None \<Rightarrow>
                 getTexts (document s') = []
                 \<and> (if anchorKey sel = Some k \<or> focusKey sel = Some k
                    then anchorKey (selection s') = None \<and> focusKey (selection s') = None
                    else selection s' = sel))"
  proof (cases "getPreviousText d k")
    case (Some prev)
    from getPreviousText_in [OF Some] have pin: "prev \<in> set (getTexts d)" "key_of prev \<noteq> k"
      by simp_all
    then have surv: "prev \<in> set (getTexts (document s'))"
      unfolding texts by simp
    have r: "relocate d (Some k) moveTo x = moveTo (key_of prev) (int (length_of prev)) x" for moveTo x
      by (simp add: relocate_def Some)
    note m = remove_moves [OF pin(2) ok' sel1 [unfolded r]]
    from surv m show ?thesis unfolding Some by simp
  next
    case None
    note pn = this
    show ?thesis
    proof (cases "getNextText d k")
      case (Some nx)
      from getNextText_in [OF Some dt] have nin: "nx \<in> set (getTexts d)" "key_of nx \<noteq> k"
        by simp_all
      then have surv: "nx \<in> set (getTexts (document s'))"
        unfolding texts by simp
      have r: "relocate d (Some k) moveTo x = moveTo (key_of nx) 0 x" for moveTo x
        by (simp add: relocate_def pn Some)
      note m = remove_moves [OF nin(2) ok' sel1 [unfolded r]]
      from surv m show ?thesis unfolding pn Some by simp
    next
      case None
      from only_text [OF pn None kin] obtain t where one: "getTexts d = [t]" by blast
      with t1 have "A = []" "B = []"
        by (auto simp: append_eq_Cons_conv Cons_eq_append_conv)
      with t2 ds have e: "getTexts (document s') = []" by simp
      have r: "relocate d (Some k) moveTo x = deselect x" for moveTo x
        by (simp add: relocate_def pn None)
      have c: "if anchorKey sel = Some k \<or> focusKey sel = Some k
               then anchorKey (selection s') = None \<and> focusKey (selection s') = None
               else selection s' = sel"
        unfolding sel1 r se [symmetric]
        by (simp add: Let_def deselect_simps)
      from e c show ?thesis unfolding pn None by simp
    qed
  qed
  from texts rest show ?thesis
    unfolding d_def sel_def by simp
qed

text \<open>
  Three removals of a Text node that carries both points: the middle one of three
  (the points move to the end of the preceding one), the first (they move to offset 0
  of the following one), and the only one of a document (the selection is cleared).
\<close>

theorem remove_node_text_selection_witness:
  "(\<exists>s'. remove_node exMiddle [1, 0] = Some s'
        \<and> getTexts (document s') = [Text ''a'' [(''ab'', [])], Text ''c'' [(''f'', [])]]
        \<and> anchorKey (selection s') = Some ''a'' \<and> anchorOffset (selection s') = 2
        \<and> focusKey (selection s') = Some ''a'' \<and> focusOffset (selection s') = 2)
   \<and> (\<exists>s'. remove_node exFirst [0, 0] = Some s'
        \<and> getTexts (document s') = [Text ''b'' [(''cde'', [])], Text ''c'' [(''f'', [])]]
        \<and> anchorKey (selection s') = Some ''b'' \<and> anchorOffset (selection s') = 0
        \<and> focusKey (selection s') = Some ''b'' \<and> focusOffset (selection s') = 0)
   \<and> (\<exists>s'. remove_node exOnly [0, 0] = Some s'
        \<and> getTexts (document s') = []
        \<and> anchorKey (selection s') = None \<and> focusKey (selection s') = None)"
proof -
  have d1: "distinct (keys (document exMiddle))"
    by (simp add: exMiddle_def exThree_def)
  have "remove_node exMiddle [1, 0] \<noteq> None" by code_simp
  then obtain s1 where s1: "remove_node exMiddle [1, 0] = Some s1" by blast
  have n1: "assertPath (document exMiddle) [1, 0] = Some (Text ''b'' [(''cde'', [])])"
    by (simp add: exMiddle_def exThree_def)
  have i1: "isSet (selection exMiddle)"
    by (simp add: exMiddle_def isSet_def)
  have o1: "\<not> (isBackward (selection exMiddle) = Some True
               \<and> anchorKey (selection exMiddle) = Some ''b'' \<and> focusKey (selection exMiddle) = Some ''b'')"
    by (simp add: exMiddle_def)
  have k1: "anchorKey (selection exMiddle) = Some ''b''" "focusKey (selection exMiddle) = Some ''b''"
    by (simp_all add: exMiddle_def)
  have t1: "filter (\<lambda>t. key_of t \<noteq> ''b'') (getTexts (document exMiddle))
              = [Text ''a'' [(''ab'', [])], Text ''c'' [(''f'', [])]]"
    by (simp add: exMiddle_def exThree_def)
  have p1: "getPreviousText (document exMiddle) ''b'' = Some (Text ''a'' [(''ab'', [])])"
    by code_simp
  have l1: "length_of (Text ''a'' [(''ab'', [])]) = 2"
    by code_simp
  have d2: "distinct (keys (document exFirst))"
    by (simp add: exFirst_def exThree_def)
  have "remove_node exFirst [0, 0] \<noteq> None" by code_simp
  then obtain s2 where s2: "remove_node exFirst [0, 0] = Some s2" by blast
  have n2: "assertPath (document exFirst) [0, 0] = Some (Text ''a'' [(''ab'', [])])"
    by (simp add: exFirst_def exThree_def)
  have i2: "isSet (selection exFirst)"
    by (simp add: exFirst_def isSet_def)
  have o2: "\<not> (isBackward (selection exFirst) = Some True
               \<and> anchorKey (selection exFirst) = Some ''a'' \<and> focusKey (selection exFirst) = Some ''a'')"
    by (simp add: exFirst_def)
  have k2: "anchorKey (selection exFirst) = Some ''a''" "focusKey (selection exFirst) = Some ''a''"
    by (simp_all add: exFirst_def)
  have t2: "filter (\<lambda>t. key_of t \<noteq> ''a'') (getTexts (document exFirst))
              = [Text ''b'' [(''cde'', [])], Text ''c'' [(''f'', [])]]"
    by (simp add: exFirst_def exThree_def)
  have p2: "getPreviousText (document exFirst) ''a'' = None"
    "getNextText (document exFirst) ''a'' = Some (Text ''b'' [(''cde'', [])])"
    by code_simp+
  have d3: "distinct (keys (document exOnly))"
    by (simp add: exOnly_def)
  have "remove_node exOnly [0, 0] \<noteq> None" by code_simp
  then obtain s3 where s3: "remove_node exOnly [0, 0] = Some s3" by blast
  have n3: "assertPath (document exOnly) [0, 0] = Some (Text ''a'' [(''ab'', [])])"
    by (simp add: exOnly_def)
  have i3: "isSet (selection exOnly)"
    by (simp add: exOnly_def isSet_def)
  have o3: "\<not> (isBackward (selection exOnly) = Some True
               \<and> anchorKey (selection exOnly) = Some ''a'' \<and> focusKey (selection exOnly) = Some ''a'')"
    by (simp add: exOnly_def)
  have k3: "anchorKey (selection exOnly) = Some ''a''" "focusKey (selection exOnly) = Some ''a''"
    by (simp_all add: exOnly_def)
  have t3: "filter (\<lambda>t. key_of t \<noteq> ''a'') (getTexts (document exOnly)) = []"
    by (simp add: exOnly_def)
  have p3: "getPreviousText (document exOnly) ''a'' = None"
    "getNextText (document exOnly) ''a'' = None"
    by code_simp+
  show ?thesis
    using remove_node_text_selection [OF d1 s1 n1 i1 o1] t1 p1 l1 k1 s1
      remove_node_text_selection [OF d2 s2 n2 i2 o2] t2 p2 k2 s2
      remove_node_text_selection [OF d3 s3 n3 i3 o3] t3 p3 k3 s3
    by simp
qed

subsection \<open>Removing text by key\<close>



lemma removeText_text:
  "removeText (Text k rs) off len = Some (Text k (ranges_of (take off (characters rs) @ drop (off + len) (characters rs))))"
  by (simp add: Let_def)













subsection \<open>Splitting down to a text descendant\<close>

lemma size_nth_le: "i < length ns \<Longrightarrow> size (ns ! i) \<le> size_list size ns"
  by (induction ns arbitrary: i) (auto simp: nth_Cons split: nat.splits intro: le_SucI trans_le_add2)

lemma assertPath_size:
  "assertPath d p = Some n \<Longrightarrow> p \<noteq> [] \<Longrightarrow> size n < size d"
proof (induction p arbitrary: d)
  case Nil
  then show ?case by simp
next
  case (Cons i p)
  from Cons.prems(1) obtain b k pr ns where d: "d = Branch b k pr ns" "i < length ns"
    "assertPath (ns ! i) p = Some n"
    unfolding assertPath_Cons by blast
  have "size n \<le> size (ns ! i)"
  proof (cases "p = []")
    case True
    with d(3) show ?thesis by simp
  next
    case False
    from Cons.IH [OF d(3) False] show ?thesis by simp
  qed
  also have "size (ns ! i) < size d"
    using size_nth_le [OF d(2)] d(1) by simp
  finally show ?case .
qed

lemma splitNode_key: "splitNode i position new n = Some n' \<Longrightarrow> key_of n' = key_of n"
  by (cases n) (auto split: if_splits prod.splits)

lemma split_node_document:
  assumes succ: "split_node s p position = Some s'"
    and ap: "assertPath (document s) p = Some node"
    and gp: "getPath (document s) (key_of node) = Some p"
    and gpp: "\<And>parent. assertPath (document s) (butlast p) = Some parent
                \<Longrightarrow> getPath (document s) (key_of parent) = Some (butlast p)"
  shows "p \<noteq> [] \<and> (\<exists>parent parent1. assertPath (document s) (butlast p) = Some parent
            \<and> key_of parent1 = key_of parent
            \<and> replaceAt (document s) (butlast p) parent1 = Some (document s'))"
proof -
  from succ obtain parent where par: "getParent (document s) (key_of node) = Some parent"
    by (cases "getParent (document s) (key_of node)") (simp_all add: split_node_def ap)
  with gp have ne: "p \<noteq> []" and pa: "assertPath (document s) (butlast p) = Some parent"
    by (auto simp: getParent_def split: if_splits)
  from succ par obtain ns where ns: "nodes_of parent = Some ns"
    by (cases "nodes_of parent") (simp_all add: split_node_def ap)
  from succ par ns obtain idx where idx: "indexOf ns node = Some idx"
    by (cases "indexOf ns node") (simp_all add: split_node_def ap)
  from succ par ns idx obtain parent1 where
    p1: "splitNode idx position (generateKey (nextKey s)) parent = Some parent1"
    by (cases "splitNode idx position (generateKey (nextKey s)) parent")
       (simp_all add: split_node_def ap)
  define r where "r = (if parent = document s then Some parent1
                        else updateDescendant (document s) parent1)"
  from succ par ns idx p1 obtain doc where doc: "r = Some doc"
    by (cases r) (simp_all add: split_node_def ap r_def Let_def)
  have ds: "document s' = doc"
    using succ [symmetric] par ns idx p1 doc [unfolded r_def]
    by (simp add: split_node_def ap Let_def split: bind_splits if_splits)
  have k1: "key_of parent1 = key_of parent" using splitNode_key [OF p1] .
  have "replaceAt (document s) (butlast p) parent1 = Some doc"
  proof (cases "butlast p = []")
    case True
    with pa have "parent = document s" by simp
    with doc True show ?thesis by (simp add: r_def)
  next
    case False
    from assertPath_size [OF pa False] have "parent \<noteq> document s" by auto
    with doc have u: "updateDescendant (document s) parent1 = Some doc" by (simp add: r_def)
    have "getDescendantPath (document s) (key_of parent1) = Some (butlast p)"
      using getDescendantPath_eq [OF gpp [OF pa] False] k1 by simp
    with u show ?thesis by (simp add: updateDescendant_def)
  qed
  with ne pa k1 ds show ?thesis by blast
qed

lemma splitNodeByKey_trace:
  assumes "splitNodeByKey norm tr k position False = Some tr1"
    and "getPath (document (state tr)) k = Some p"
  shows "trace tr1 = trace tr @ [Applied (Split_node p position)]
       \<and> split_node (state tr) p position = Some (state tr1)"
  using assms(1) [symmetric] assms(2)
  by (auto simp: splitNodeByKey_def transform_applyOperation_def Let_def split: bind_splits)

lemma assertPath_take:
  assumes "assertPath d p = Some n" "i \<le> length p"
  shows "\<exists>a. assertPath d (take i p) = Some a \<and> assertPath a (drop i p) = Some n"
proof -
  have "assertPath d (take i p @ drop i p) = Some n" using assms(1) by simp
  then show ?thesis
    unfolding assertPath_append by (auto split: option.splits)
qed

lemma split_level:
  assumes j: "j \<le> length tp"
    and inv: "\<forall>i \<le> j. getPath (document (state cur)) (key_of (lv i)) = Some (take i tp)"
    and sn: "splitNodeByKey norm cur (key_of (lv j)) position False = Some cur'"
  shows "trace cur' = trace cur @ [Applied (Split_node (take j tp) position)]
        \<and> 0 < j
        \<and> (\<forall>i < j. getPath (document (state cur')) (key_of (lv i)) = Some (take i tp))"
proof -
  have gj: "getPath (document (state cur)) (key_of (lv j)) = Some (take j tp)"
    using inv by simp
  from splitNodeByKey_trace [OF sn gj] have
    tc: "trace cur' = trace cur @ [Applied (Split_node (take j tp) position)]"
    and sp: "split_node (state cur) (take j tp) position = Some (state cur')"
    by simp_all
  from getPath_assertPath [OF gj] obtain nodec where
    nc: "assertPath (document (state cur)) (take j tp) = Some nodec" "key_of nodec = key_of (lv j)"
    by blast
  have gpp: "getPath (document (state cur)) (key_of parent) = Some (butlast (take j tp))"
    if pa: "assertPath (document (state cur)) (butlast (take j tp)) = Some parent" for parent
  proof (cases j)
    case 0
    with pa show ?thesis by (simp add: getPath_Nil_iff)
  next
    case (Suc j0)
    with j have bl: "butlast (take j tp) = take j0 tp"
      by (simp add: butlast_take)
    have "getPath (document (state cur)) (key_of (lv j0)) = Some (take j0 tp)"
      using inv Suc by simp
    from getPath_assertPath [OF this] pa bl have "key_of parent = key_of (lv j0)" by auto
    with inv Suc bl show ?thesis by simp
  qed
  from split_node_document [OF sp nc(1) _ gpp] gj nc(2)
  obtain parent parent1 where ne: "take j tp \<noteq> []"
    and pa: "assertPath (document (state cur)) (butlast (take j tp)) = Some parent"
    and k1: "key_of parent1 = key_of parent"
    and rep: "replaceAt (document (state cur)) (butlast (take j tp)) parent1 = Some (document (state cur'))"
    by auto
  from ne have j0: "0 < j" by (cases j) auto
  have bl: "butlast (take j tp) = take (j - 1) tp"
    using j j0 by (simp add: butlast_take)
  have kp: "key_of parent = key_of (lv (j - 1))"
  proof -
    have "getPath (document (state cur)) (key_of (lv (j - 1))) = Some (take (j - 1) tp)"
      using inv by simp
    from getPath_assertPath [OF this] pa bl show ?thesis by auto
  qed
  have "getPath (document (state cur')) (key_of (lv i)) = Some (take i tp)" if i: "i < j" for i
  proof -
    have g: "getPath (document (state cur)) (key_of (lv i)) = Some (take i tp)"
      using inv i by simp
    define r where "r = drop i (take (j - 1) tp)"
    have "i \<le> j - 1" using i by simp
    then have "take i (take (j - 1) tp) = take i tp"
      by (simp add: min_def)
    with append_take_drop_id [of i "take (j - 1) tp"]
    have split: "take (j - 1) tp = take i tp @ r"
      by (simp add: r_def)
    have "r = [] \<longrightarrow> key_of parent1 = key_of (lv i)"
    proof
      assume "r = []"
      then have "i = j - 1" using i j by (auto simp: r_def)
      with k1 kp show "key_of parent1 = key_of (lv i)" by simp
    qed
    with getPath_replaceAt [OF g rep [unfolded bl split]] show ?thesis by simp
  qed
  with tc j0 show ?thesis by blast
qed

lemma split_step:
  assumes dist: "distinct (keys d)"
    and lv: "\<forall>i \<le> length tp. assertPath d (take i tp) = Some (lv i)"
    and j: "j < length tp"
    and inv: "\<forall>i \<le> j. getPath (document (state cur)) (key_of (lv i)) = Some (take i tp)"
    and step: "splitLoop norm cur (Some (lv (Suc j))) off (lv j # rest) = Some tr'"
  shows "\<exists>cur'. splitLoop norm cur' (Some (lv j)) off rest = Some tr'
        \<and> trace cur' = trace cur @ [Applied (Split_node (take j tp) (Suc (tp ! j)))]
        \<and> 0 < j
        \<and> (\<forall>i < j. getPath (document (state cur')) (key_of (lv i)) = Some (take i tp))"
proof -
  have lvj: "assertPath d (take j tp) = Some (lv j)" using lv j by simp
  have "assertPath d (take j tp @ [tp ! j]) = Some (lv (Suc j))"
    using lv j by (simp add: take_Suc_conv_app_nth [symmetric])
  with lvj have ch: "assertPath (lv j) [tp ! j] = Some (lv (Suc j))"
    by (simp add: assertPath_append)
  then obtain b k pr ns where br: "lv j = Branch b k pr ns" and c: "tp ! j < length ns"
    "ns ! (tp ! j) = lv (Suc j)"
    by (cases "lv j") (auto split: if_splits)
  have "distinct (keys (lv j))" using distinct_assertPath [OF dist lvj] .
  then have "indexOf ns (ns ! (tp ! j)) = Some (tp ! j)"
    using indexOf_nth [of ns "tp ! j"] c(1) br by simp
  then have idx: "indexOf ns (lv (Suc j)) = Some (tp ! j)" using c(2) by simp
  from step obtain cur' where
    sn: "splitNodeByKey norm cur (key_of (lv j)) (Suc (tp ! j)) False = Some cur'"
    and rest: "splitLoop norm cur' (Some (lv j)) off rest = Some tr'"
    by (auto simp: br idx split: bind_splits)
  from split_level [OF _ inv sn] j rest show ?thesis by auto
qed

lemma splitLoop_levels:
  assumes dist: "distinct (keys d)"
    and lv: "\<forall>i \<le> length tp. assertPath d (take i tp) = Some (lv i)"
  shows "j < length tp \<Longrightarrow> m \<le> j
     \<Longrightarrow> \<forall>i \<le> j. getPath (document (state cur)) (key_of (lv i)) = Some (take i tp)
     \<Longrightarrow> splitLoop norm cur (Some (lv (Suc j))) off (map lv (rev [m..<Suc j])) = Some tr'
     \<Longrightarrow> 0 < m \<and> trace tr' = trace cur
           @ map (\<lambda>i. Applied (Split_node (take i tp) (Suc (tp ! i)))) (rev [m..<Suc j])"
proof (induction j arbitrary: cur)
  case 0
  then have "m = 0" by simp
  with 0 have "splitLoop norm cur (Some (lv (Suc 0))) off (lv 0 # []) = Some tr'" by simp
  from split_step [OF dist lv "0.prems"(1,3) this] show ?case by simp
next
  case (Suc j)
  have l: "map lv (rev [m..<Suc (Suc j)]) = lv (Suc j) # map lv (rev [m..<Suc j])"
    using Suc.prems(2) by simp
  from split_step [OF dist lv Suc.prems(1,3) Suc.prems(4) [unfolded l]] obtain cur' where
    c: "splitLoop norm cur' (Some (lv (Suc j))) off (map lv (rev [m..<Suc j])) = Some tr'"
       "trace cur' = trace cur @ [Applied (Split_node (take (Suc j) tp) (Suc (tp ! Suc j)))]"
       "\<forall>i < Suc j. getPath (document (state cur')) (key_of (lv i)) = Some (take i tp)"
    by blast
  show ?case
  proof (cases "m = Suc j")
    case True
    with c(1) have "tr' = cur'" by simp
    with c(2) True show ?thesis by simp
  next
    case False
    with Suc.prems(2) have m: "m \<le> j" by simp
    have jl: "j < length tp" using Suc.prems(1) by simp
    have inv: "\<forall>i \<le> j. getPath (document (state cur')) (key_of (lv i)) = Some (take i tp)"
      using c(3) by simp
    from Suc.IH [OF jl m inv c(1)] c(2) Suc.prems(2) show ?thesis
      by simp
  qed
qed

lemma those_nodes_map:
  "\<forall>i \<in> set xs. f i = Some (g i) \<Longrightarrow> those_nodes (map f xs) = Some (map g xs)"
  by (induction xs) auto

lemma normalizeNodeByKey_trace:
  "normalizeNodeByKey norm tr k = Some tr' \<Longrightarrow> trace tr' = trace tr @ [Normalized k]"
  by (auto simp: normalizeNodeByKey_def split: bind_splits)

text \<open>
  C2 as stated fails: the node named by \<^verbatim>\<open>key\<close> is split as well. The text \<open>t\<close> lies in
  the inline \<open>i\<close> in the block \<open>b\<close>; \<^verbatim>\<open>splitDescendantsByKey\<close> with the key \<open>b\<close>
  splits \<open>t\<close>, then \<open>i\<close>, then \<open>b\<close> itself at the path \<open>[0]\<close>, leaving two blocks, and
  then normalizes the parent of \<open>b\<close>, the document \<open>d\<close>.
\<close>

theorem splitDescendantsByKey_counterexample:
  "getPath (document (state exDeep)) ''b'' = Some [0]
   \<and> map_option trace (splitDescendantsByKey (\<lambda>k s. Some s) exDeep ''b'' ''t'' 2 True)
     = Some [Applied (Split_node [0, 0, 0] 2), Applied (Split_node [0, 0] 1),
             Applied (Split_node [0] 1), Normalized ''d'']
   \<and> map_option (\<lambda>t. document (state t))
         (splitDescendantsByKey (\<lambda>k s. Some s) exDeep ''b'' ''t'' 2 True)
     = Some (Branch Document ''d'' []
         [Branch Block ''b'' [] [Branch Inline ''i'' [] [Text ''t'' [(''he'', [])]]],
          Branch Block ''2'' [] [Branch Inline ''1'' [] [Text ''0'' [(''llo'', [])]]]])"
  by code_simp

text \<open>
  C2, amended. In a document with unique keys, let the text node lie at the path
  \<open>tp\<close> and the node named by \<^verbatim>\<open>key\<close> be its ancestor at depth \<open>m\<close>. When
  \<^verbatim>\<open>splitDescendantsByKey\<close> succeeds, it has applied exactly these operations, in this
  order: the split of the text node at the text offset; then, walking upward, for every
  ancestor at depth \<open>j\<close> from the parent of the text up to and including the node
  named by \<^verbatim>\<open>key\<close>, the split of that ancestor at the index after the child it holds on
  the path (\<open>tp ! j + 1\<close>, the position of the right half of the split below). No
  normalization happens in between; with normalization asked for there is exactly one,
  at the end, of the parent of the node named by \<^verbatim>\<open>key\<close>. The node named by \<^verbatim>\<open>key\<close>
  is not the root.
\<close>

theorem splitDescendantsByKey_trace:
  assumes dist: "distinct (keys (document (state tr)))"
    and tpa: "assertPath (document (state tr)) tp = Some txt"
    and tk: "key_of txt = textKey"
    and m: "m < length tp"
    and ka: "assertPath (document (state tr)) (take m tp) = Some knode"
    and kk: "key_of knode = x"
    and succ: "splitDescendantsByKey norm tr x textKey off normalize' = Some tr'"
  shows "0 < m \<and> (\<exists>parent. assertPath (document (state tr)) (take (m - 1) tp) = Some parent
          \<and> trace tr' = trace tr @ Applied (Split_node tp off)
              # map (\<lambda>j. Applied (Split_node (take j tp) (Suc (tp ! j)))) (rev [m..<length tp])
              @ (if normalize' then [Normalized (key_of parent)] else []))"
proof -
  define d where "d = document (state tr)"
  define n where "n = length tp"
  define lv where "lv i = the (assertPath d (take i tp))" for i
  note dist' = dist [folded d_def] and tpa' = tpa [folded d_def] and ka' = ka [folded d_def]
  have lvP: "\<forall>i \<le> length tp. assertPath d (take i tp) = Some (lv i)"
  proof (intro allI impI)
    fix i assume "i \<le> length tp"
    from assertPath_take [OF tpa' this] obtain a where "assertPath d (take i tp) = Some a"
      by blast
    then show "assertPath d (take i tp) = Some (lv i)" by (simp add: lv_def)
  qed
  have lvn: "lv n = txt" using tpa' by (simp add: lv_def n_def)
  have lvm: "lv m = knode" using ka' by (simp add: lv_def)
  have gpi: "getPath d (key_of (lv i)) = Some (take i tp)" if "i \<le> n" for i
    using assertPath_getPath [OF dist'] lvP that by (simp add: n_def)
  have gt: "getPath d textKey = Some tp"
    using gpi [of n] lvn tk by (simp add: n_def)
  have gx: "getPath d x = Some (take m tp)"
    using gpi [of m] lvm kk m by (simp add: n_def)
  have ne: "x \<noteq> textKey"
  proof
    assume "x = textKey"
    with gt gx have "take m tp = tp" by simp
    then have "length (take m tp) = length tp" by simp
    with m show False by simp
  qed
  have gn: "getNode d textKey = Some txt"
    using gt tpa' by (simp add: getNode_def)
  have ga: "getAncestors d textKey = Some (map lv [0..<n])"
    using gt lvP by (simp add: getAncestors_def those_nodes_map n_def)
  have before: "\<forall>a \<in> set (map lv [0..<m]). key_of a \<noteq> x"
  proof -
    have "key_of (lv i) \<noteq> x" if "i < m" for i
    proof
      assume "key_of (lv i) = x"
      with gpi [of i] gx that m have "take i tp = take m tp" by (simp add: n_def)
      then have "length (take i tp) = length (take m tp)" by simp
      with that m show False by simp
    qed
    then show ?thesis by auto
  qed
  have mn: "m < n" using m by (simp add: n_def)
  have "[0..<m + (n - m)] = [0..<m] @ [m..<m + (n - m)]"
    by (rule upt_add_eq_append) simp
  with mn have sp: "map lv [0..<n] = map lv [0..<m] @ map lv [m..<n]" by simp
  have hd: "map lv [m..<n] = knode # map lv [Suc m..<n]"
    using mn lvm by (simp add: upt_conv_Cons)
  have "dropWhile (\<lambda>a. key_of a \<noteq> x) (map lv [0..<n])
      = dropWhile (\<lambda>a. key_of a \<noteq> x) (map lv [m..<n])"
    unfolding sp using before by (intro dropWhile_append2) auto
  also have "\<dots> = map lv [m..<n]"
    unfolding hd using kk by simp
  finally have dw: "dropWhile (\<lambda>a. key_of a \<noteq> x) (map lv [0..<n]) = map lv [m..<n]" .
  from succ ne obtain tr1 where
    loop: "splitLoop norm tr None off (txt # rev (map lv [m..<n])) = Some tr1"
    and fin: "(if normalize'
               then do { parent \<leftarrow> getParent d x; normalizeNodeByKey norm tr1 (key_of parent) }
               else Some tr1) = Some tr'"
    by (auto simp: splitDescendantsByKey_def Let_def d_def [symmetric] gn ga dw split: bind_splits)
  from loop obtain tr0 where
    s0: "splitNodeByKey norm tr textKey off False = Some tr0"
    and l0: "splitLoop norm tr0 (Some txt) off (rev (map lv [m..<n])) = Some tr1"
    by (auto simp: tk split: bind_splits)
  have inv0: "\<forall>i \<le> n. getPath (document (state tr)) (key_of (lv i)) = Some (take i tp)"
    using gpi by (simp add: d_def)
  from split_level [of n tp tr lv norm off tr0] inv0 s0 lvn tk
  have t0: "trace tr0 = trace tr @ [Applied (Split_node tp off)]"
    and inv1: "\<forall>i < n. getPath (document (state tr0)) (key_of (lv i)) = Some (take i tp)"
    by (simp_all add: n_def)
  have n0: "0 < n" using m unfolding n_def by linarith
  have l1: "splitLoop norm tr0 (Some (lv (Suc (n - 1)))) off (map lv (rev [m..<Suc (n - 1)])) = Some tr1"
    using l0 lvn n0 by (simp add: rev_map)
  have "0 < m \<and> trace tr1 = trace tr0
           @ map (\<lambda>i. Applied (Split_node (take i tp) (Suc (tp ! i)))) (rev [m..<Suc (n - 1)])"
  proof (rule splitLoop_levels [OF dist' lvP _ _ _ l1])
    show "n - 1 < length tp" using n0 by (simp add: n_def)
    show "m \<le> n - 1" using m by (simp add: n_def)
    show "\<forall>i \<le> n - 1. getPath (document (state tr0)) (key_of (lv i)) = Some (take i tp)"
      using inv1 n0 by auto
  qed
  with n0 have m0: "0 < m"
    and t1: "trace tr1 = trace tr0
           @ map (\<lambda>i. Applied (Split_node (take i tp) (Suc (tp ! i)))) (rev [m..<n])"
    by simp_all
  have bl: "butlast (take m tp) = take (m - 1) tp"
    using m by (simp add: butlast_take)
  obtain parent where pa: "assertPath d (take (m - 1) tp) = Some parent"
    using lvP m by auto
  have "tp \<noteq> []" using n0 by (simp add: n_def)
  then have gp: "getParent d x = Some parent"
    using gx m0 m pa bl by (simp add: getParent_def)
  have "trace tr' = trace tr1 @ (if normalize' then [Normalized (key_of parent)] else [])"
  proof (cases normalize')
    case True
    with fin gp have "normalizeNodeByKey norm tr1 (key_of parent) = Some tr'" by simp
    from normalizeNodeByKey_trace [OF this] True show ?thesis by simp
  next
    case False
    with fin show ?thesis by simp
  qed
  with t0 t1 m0 pa show ?thesis
    by (simp add: d_def n_def)
qed

text \<open>
  The same example: three splits and one normalization, in this order.
\<close>

theorem splitDescendantsByKey_trace_witness:
  "\<exists>tr'. splitDescendantsByKey (\<lambda>k s. Some s) exDeep ''b'' ''t'' 2 True = Some tr'
     \<and> trace tr' = [Applied (Split_node [0, 0, 0] 2), Applied (Split_node [0, 0] 1),
                    Applied (Split_node [0] 1), Normalized ''d'']"
proof -
  have dist: "distinct (keys (document (state exDeep)))"
    by (simp add: exDeep_def)
  have tpa: "assertPath (document (state exDeep)) [0, 0, 0] = Some (Text ''t'' [(''hello'', [])])"
    by (simp add: exDeep_def)
  have tk: "key_of (Text ''t'' [(''hello'', [])]) = ''t''" by simp
  have m: "1 < length [0 :: nat, 0, 0]" by simp
  have ka: "assertPath (document (state exDeep)) (take 1 [0, 0, 0])
     = Some (Branch Block ''b'' [] [Branch Inline ''i'' [] [Text ''t'' [(''hello'', [])]]])"
    by (simp add: exDeep_def)
  have kk: "key_of (Branch Block ''b'' [] [Branch Inline ''i'' [] [Text ''t'' [(''hello'', [])]]]) = ''b''"
    by simp
  have "splitDescendantsByKey (\<lambda>k s. Some s) exDeep ''b'' ''t'' 2 True \<noteq> None"
    by code_simp
  then obtain tr' where
    succ: "splitDescendantsByKey (\<lambda>k s. Some s) exDeep ''b'' ''t'' 2 True = Some tr'"
    by blast
  have tr: "trace exDeep = []" by (simp add: exDeep_def)
  have pa: "assertPath (document (state exDeep)) (take (1 - 1) [0, 0, 0]) = Some parent
              \<Longrightarrow> key_of parent = ''d''" for parent
    by (auto simp: exDeep_def)
  have ev: "map (\<lambda>j. Applied (Split_node (take j [0, 0, 0]) (Suc ([0, 0, 0] ! j)))) (rev [1..<length [0 :: nat, 0, 0]])
      = [Applied (Split_node [0, 0] 1), Applied (Split_node [0] 1)]"
    by code_simp
  from splitDescendantsByKey_trace [OF dist tpa tk m ka kk succ, unfolded ev tr] pa succ
  show ?thesis by auto
qed

subsection \<open>Setting node properties: what is kept\<close>

lemma kind_Branch: "kind (Branch b k pr ns) = kind (Branch b k' pr' ns')"
  by (cases b) simp_all

lemma merge_keeps:
  assumes "prop_key ps = None \<or> prop_key ps = Some (key_of node)"
    and "prop_nodes ps = None \<or> prop_nodes ps = nodes_of node"
  shows "key_of (merge node ps) = key_of node \<and> nodes_of (merge node ps) = nodes_of node
       \<and> kind (merge node ps) = kind node"
proof (cases node)
  case (Text k rs)
  with assms show ?thesis by auto
next
  case (Branch b k pr ns)
  with assms show ?thesis by (auto intro: kind_Branch)
qed

text \<open>
  Apart from the empty key, \<^verbatim>\<open>set_node\<close> keeps the key and the children: in a
  document with unique keys whose root alone is of kind document, after a successful
  \<^verbatim>\<open>set_node\<close> with properties whose key is not the empty string, the node at the
  path has the key and the children that it had.
\<close>

theorem set_node_keeps_key_and_children:
  assumes succ: "set_node s p ps = Some (ws, s')"
    and node: "assertPath (document s) p = Some node"
    and dist: "distinct (keys (document s))"
    and root: "(kind node = ''document'') = (p = [])"
    and key: "prop_key ps \<noteq> Some ''''"
  shows "\<exists>node'. assertPath (document s') p = Some node'
           \<and> key_of node' = key_of node \<and> nodes_of node' = nodes_of node"
proof -
  define dropNodes where "dropNodes \<longleftrightarrow> prop_nodes ps \<noteq> None \<and> prop_nodes ps \<noteq> nodes_of node"
  define ps1 where "ps1 = (if dropNodes then ps\<lparr>prop_nodes := None\<rparr> else ps)"
  define dropKey where "dropKey \<longleftrightarrow>
    (case prop_key ps1 of None \<Rightarrow> False | Some k \<Rightarrow> k \<noteq> [] \<and> k \<noteq> key_of node)"
  define ps2 where "ps2 = (if dropKey then ps1\<lparr>prop_key := None\<rparr> else ps1)"
  define node1 where "node1 = merge node ps2"
  have k: "prop_key ps2 = None \<or> prop_key ps2 = Some (key_of node)"
    using key by (cases "prop_key ps") (auto simp: ps2_def dropKey_def ps1_def)
  have n: "prop_nodes ps2 = None \<or> prop_nodes ps2 = nodes_of node"
    by (auto simp: ps2_def ps1_def dropNodes_def)
  from merge_keeps [OF k n, folded node1_def]
  have m: "key_of node1 = key_of node" "nodes_of node1 = nodes_of node" "kind node1 = kind node"
    by simp_all
  have run: "Some (ws, s') = do {
       doc \<leftarrow> (if kind node1 = ''document'' then Some node1
               else updateDescendant (document s) node1);
       Some ((if dropNodes then [NodesNotAllowed] else []) @ (if dropKey then [KeyNotAllowed] else []),
             s\<lparr>document := doc\<rparr>) }"
    using succ [symmetric]
    unfolding set_node_def node Let_def dropNodes_def ps1_def dropKey_def ps2_def node1_def
    by (simp only: Option.bind.simps)
  show ?thesis
  proof (cases "p = []")
    case True
    with root m(3) run have "document s' = node1" by simp
    with True m show ?thesis by simp
  next
    case False
    with root m(3) have nk: "kind node1 \<noteq> ''document''" by simp
    from replaceAt_assertPath [OF node, of node1] obtain d' where
      d': "replaceAt (document s) p node1 = Some d'" "assertPath d' p = Some node1"
      by blast
    have "updateDescendant (document s) node1 = Some d'"
      using updateDescendant_at [OF dist node False, of node1] m(1) d'(1) by simp
    with run nk have "document s' = d'" by simp
    with d'(2) m show ?thesis by simp
  qed
qed

text \<open>
  A new child list and a new key for the block \<open>p\<close>: both are dropped with a warning.
\<close>

theorem set_node_keeps_key_and_children_witness:
  "\<exists>ws s' node'. set_node exState [0] \<lparr>prop_nodes = Some [], prop_key = Some ''z'',
        prop_other = [(''type'', ''quote'')]\<rparr> = Some (ws, s')
     \<and> ws = [NodesNotAllowed, KeyNotAllowed]
     \<and> assertPath (document s') [0] = Some node'
     \<and> key_of node' = ''p''
     \<and> nodes_of node' = Some [Text ''t'' [(''abcdefgh'', [])]]"
proof -
  have n: "assertPath (document exState) [0] = Some (Branch Block ''p'' [] [Text ''t'' [(''abcdefgh'', [])]])"
    by (simp add: exState_def exDoc_def)
  have d: "distinct (keys (document exState))"
    by (simp add: exState_def exDoc_def)
  have r: "(kind (Branch Block ''p'' [] [Text ''t'' [(''abcdefgh'', [])]]) = ''document'') = ([0::nat] = [])"
    by simp
  have k: "prop_key \<lparr>prop_nodes = Some [], prop_key = Some ''z'',
        prop_other = [(''type'', ''quote'')]\<rparr> \<noteq> Some ''''"
    by simp
  have "map_option fst (set_node exState [0] \<lparr>prop_nodes = Some [], prop_key = Some ''z'',
        prop_other = [(''type'', ''quote'')]\<rparr>) = Some [NodesNotAllowed, KeyNotAllowed]"
    by code_simp
  then obtain s' where s: "set_node exState [0] \<lparr>prop_nodes = Some [], prop_key = Some ''z'',
        prop_other = [(''type'', ''quote'')]\<rparr> = Some ([NodesNotAllowed, KeyNotAllowed], s')"
    by auto
  from set_node_keeps_key_and_children [OF s n d r k] s show ?thesis
    by auto
qed

end
